theory Spec2Isabelle
  imports Complex_Main
begin

section \<open>Go primitives used by buffer.go\<close>

text \<open>
  Errors are values. \<open>Panic\<close> stands for a Go run-time panic (index or slice bound out of
  range, integer division by zero, \<open>make\<close> with a negative length). The other constructors
  are the four errors \<open>WriteFile\<close> returns, named after the specification:
  \<^item> \<open>InsufficientFrames\<close>: \<^verbatim>\<open>"need at least 2 frames"\<close>
  \<^item> \<open>WriterOpenFailed e\<close>: \<^verbatim>\<open>"opening writer failed: %w"\<close> wrapping \<open>e\<close>
  \<^item> \<open>DimensionMismatch\<close>: \<^verbatim>\<open>"not all frames have the same dimensions"\<close>
  \<^item> \<open>WriteFailed e\<close>: \<^verbatim>\<open>"writing image failed: %w"\<close> wrapping \<open>e\<close>
  An error of an external library is its message, a \<open>string\<close>.
\<close>

datatype error =
    Panic
  | InsufficientFrames
  | WriterOpenFailed string
  | DimensionMismatch
  | WriteFailed string

definition ebind :: "error + 'a \<Rightarrow> ('a \<Rightarrow> error + 'b) \<Rightarrow> error + 'b" where
  "ebind m f = (case m of Inl e \<Rightarrow> Inl e | Inr x \<Rightarrow> f x)"

text \<open>
  Go's \<open>int\<close> and \<open>time.Duration\<close> are 64-bit two's complement integers: they are
  modelled as \<open>int\<close>, and every addition and subtraction of the source is wrapped.
\<close>

definition wrap64 :: "int \<Rightarrow> int" where
  "wrap64 x = (x + 2 ^ 63) mod 2 ^ 64 - 2 ^ 63"

text \<open>Go's \<open>a % b\<close>: the remainder has the sign of \<open>a\<close>; a zero divisor panics.\<close>

definition go_rem :: "int \<Rightarrow> int \<Rightarrow> error + int" where
  "go_rem a b = (if b = 0 then Inl Panic else Inr (sgn a * (\<bar>a\<bar> mod \<bar>b\<bar>)))"

text \<open>\<open>xs[i]\<close> and \<open>xs[lo:hi]\<close> on a slice whose capacity is its length.\<close>

definition index :: "'a list \<Rightarrow> int \<Rightarrow> error + 'a" where
  "index xs i = (if 0 \<le> i \<and> i < int (length xs) then Inr (xs ! nat i) else Inl Panic)"

definition slice :: "'a list \<Rightarrow> int \<Rightarrow> int \<Rightarrow> error + 'a list" where
  "slice xs lo hi =
     (if 0 \<le> lo \<and> lo \<le> hi \<and> hi \<le> int (length xs)
      then Inr (take (nat hi - nat lo) (drop (nat lo) xs))
      else Inl Panic)"

text \<open>
  A \<open>time.Time\<close> is an instant, counted in nanoseconds from the zero value \<open>time.Time{}\<close>;
  a \<open>time.Duration\<close> is a 64-bit count of nanoseconds. \<open>t.Sub(u)\<close> saturates at the
  smallest and the largest duration.
\<close>

type_synonym time = int
type_synonym duration = int

definition minDuration :: duration where
  "minDuration = - (2 ^ 63)"

definition maxDuration :: duration where
  "maxDuration = 2 ^ 63 - 1"

definition time_Sub :: "time \<Rightarrow> time \<Rightarrow> duration" where
  "time_Sub t u =
     (let d = t - u
      in if d < minDuration then minDuration
         else if maxDuration < d then maxDuration
         else d)"

text \<open>
  A \<open>float64\<close> the program computes is kept as the expression that computes it:
  \<open>FZero\<close> is the literal \<open>0\<close>, and \<open>FQuot n d\<close> is \<open>float64(n) / d.Seconds()\<close> for an
  integer \<open>n\<close> and a duration \<open>d\<close>. No rounding is modelled, and no value is given
  to a quotient whose divisor is zero.
\<close>

datatype float64 = FZero | FQuot int duration

text \<open>
  A \<open>gocv.Mat\<close>: its dimensions and its pixel data. \<open>NewMat\<close> is the empty matrix of
  \<open>gocv.NewMat()\<close>; \<open>img.CopyTo(dst)\<close> makes the content of \<open>dst\<close> equal to \<open>img\<close>.
\<close>

record mat =
  Cols :: int
  Rows :: int
  pixels :: "nat list"

definition NewMat :: mat where
  "NewMat = \<lparr>Cols = 0, Rows = 0, pixels = []\<rparr>"

section \<open>buffer.go: MatBuffer\<close>

record MatBuffer =
  imgs :: "mat list"
  times :: "time list"
  writes :: int

text \<open>
  The struct that \<open>NewMatBuffer\<close> builds once \<open>frames\<close> is known: \<open>frames\<close> slots, each a
  fresh \<open>NewMat\<close>, zero timestamps, no writes.
\<close>

definition alloc :: "nat \<Rightarrow> MatBuffer" where
  "alloc frames = \<lparr>imgs = replicate frames NewMat, times = replicate frames 0, writes = 0\<rparr>"

text \<open>
  The product \<open>fps * duration.Seconds()\<close> decides the number of slots, so its \<open>float64\<close>
  arithmetic is modelled exactly. A finite \<open>float64\<close> is \<open>m * 2 ^ e\<close> for integers \<open>m\<close>
  and \<open>e\<close> (\<open>B64 m e\<close>, with \<open>\<bar>m\<bar> < 2 ^ 53\<close> and \<open>- 1074 \<le> e\<close>); \<open>b64_val\<close> is its value.
  Infinities and NaN are not values of this type.
\<close>

datatype binary64 = B64 int int

definition pow2 :: "int \<Rightarrow> real" where
  "pow2 e = (if 0 \<le> e then 2 ^ nat e else 1 / 2 ^ nat (- e))"

definition b64_val :: "binary64 \<Rightarrow> real" where
  "b64_val x = (case x of B64 m e \<Rightarrow> real_of_int m * pow2 e)"

text \<open>
  Every \<open>float64\<close> operation returns the exact result rounded to the nearest \<open>float64\<close>,
  ties to the even significand. \<open>round_b64 n d\<close> rounds the fraction \<open>n / d\<close> (\<open>0 < d\<close>):
  \<open>ilog2 a d\<close> is the exponent of \<open>a / d\<close>, that is \<open>\<lfloor>log 2 (a / d)\<rfloor>\<close>; the unit of the
  result is \<open>2 ^ q\<close> with \<open>q\<close> 52 below that exponent, and \<open>- 1074\<close> at least (subnormal
  numbers); the significand is \<open>n / d / 2 ^ q\<close> rounded to an integer. A result of
  \<open>2 ^ 1024\<close> or more, which the hardware replaces by an infinity, is left finite here.
\<close>

fun bit_length :: "nat \<Rightarrow> nat" where
  "bit_length n = (if n = 0 then 0 else Suc (bit_length (n div 2)))"

declare bit_length.simps [simp del]

definition ilog2 :: "int \<Rightarrow> int \<Rightarrow> int" where
  "ilog2 a d =
     (let k = int (bit_length (nat a)) - int (bit_length (nat d))
      in if (if 0 \<le> k then d * 2 ^ nat k \<le> a else d \<le> a * 2 ^ nat (- k)) then k else k - 1)"

definition round_even :: "int \<Rightarrow> int \<Rightarrow> int" where
  "round_even n d =
     (let q = n div d; r = n mod d
      in if 2 * r < d then q else if d < 2 * r then q + 1 else if even q then q else q + 1)"

definition round_b64 :: "int \<Rightarrow> int \<Rightarrow> binary64" where
  "round_b64 n d =
     (if n = 0 then B64 0 0
      else
        (let q = max (ilog2 \<bar>n\<bar> d - 52) (- 1074);
             m = (if 0 \<le> q then round_even \<bar>n\<bar> (d * 2 ^ nat q)
                  else round_even (\<bar>n\<bar> * 2 ^ nat (- q)) d)
         in B64 (sgn n * m) q))"

text \<open>A \<open>float64\<close> as the fraction \<open>b64_num x / b64_den x\<close>, and the operations.\<close>

definition b64_num :: "binary64 \<Rightarrow> int" where
  "b64_num x = (case x of B64 m e \<Rightarrow> if 0 \<le> e then m * 2 ^ nat e else m)"

definition b64_den :: "binary64 \<Rightarrow> int" where
  "b64_den x = (case x of B64 m e \<Rightarrow> if 0 \<le> e then 1 else 2 ^ nat (- e))"

definition b64_of_int :: "int \<Rightarrow> binary64" where
  "b64_of_int i = round_b64 i 1"

definition b64_mul :: "binary64 \<Rightarrow> binary64 \<Rightarrow> binary64" where
  "b64_mul x y = round_b64 (b64_num x * b64_num y) (b64_den x * b64_den y)"

definition b64_add :: "binary64 \<Rightarrow> binary64 \<Rightarrow> binary64" where
  "b64_add x y =
     round_b64 (b64_num x * b64_den y + b64_num y * b64_den x) (b64_den x * b64_den y)"

text \<open>\<open>x / 1e9\<close>, the only division of the program that decides a length.\<close>

definition b64_div_1e9 :: "binary64 \<Rightarrow> binary64" where
  "b64_div_1e9 x = round_b64 (b64_num x) (b64_den x * 1000000000)"

text \<open>
  Go's integer quotient \<open>a / b\<close> truncates towards zero (\<open>b\<close> is the constant
  \<open>time.Second\<close> here). \<open>Duration.Seconds\<close> of the standard library is
  \<^verbatim>\<open>sec := d / Second; nsec := d % Second; return float64(sec) + float64(nsec)/1e9\<close>.
\<close>

definition go_quot :: "int \<Rightarrow> int \<Rightarrow> int" where
  "go_quot a b = (if (a < 0) = (b < 0) then \<bar>a\<bar> div \<bar>b\<bar> else - (\<bar>a\<bar> div \<bar>b\<bar>))"

definition Seconds :: "duration \<Rightarrow> binary64" where
  "Seconds d =
     (let sec = go_quot d 1000000000;
          nsec = d - 1000000000 * sec
      in b64_add (b64_of_int sec) (b64_div_1e9 (b64_of_int nsec)))"

text \<open>
  Go's conversion \<open>int(x)\<close> of a float discards the fraction (truncation towards zero).
\<close>

definition float_to_int :: "real \<Rightarrow> int" where
  "float_to_int x = (if 0 \<le> x then \<lfloor>x\<rfloor> else \<lceil>x\<rceil>)"

text \<open>
  \<open>NewMatBuffer duration fps\<close> computes \<open>frames := int(fps * duration.Seconds())\<close> and makes
  two slices of that length. \<open>make\<close> panics on a negative length and on a length above
  what the runtime can allocate (\<^verbatim>\<open>makeslice: len out of range\<close>); that bound depends on
  the platform and is the parameter \<open>maxlen\<close>, below \<open>2 ^ 63\<close>. For a product outside the
  range of \<open>int\<close> the conversion is implementation-dependent: it yields the smallest or
  the largest \<open>int\<close>, and \<open>make\<close> panics on both.
\<close>

definition NewMatBuffer :: "int \<Rightarrow> duration \<Rightarrow> binary64 \<Rightarrow> error + MatBuffer" where
  "NewMatBuffer maxlen duration fps =
     (let frames = float_to_int (b64_val (b64_mul fps (Seconds duration)))
      in if frames < 0 \<or> maxlen < frames \<or> 2 ^ 63 \<le> frames then Inl Panic
         else Inr (alloc (nat frames)))"

text \<open>
  \<open>Close\<close>: the loop over the slots. \<open>mat_Close\<close> is \<open>gocv.Mat.Close\<close>, external: it
  returns an error or \<open>None\<close>, and the matrix after the call. While \<open>err\<close> is \<open>nil\<close> the
  loop calls it and keeps the result, and then calls it once more on every slot whatever
  \<open>err\<close> is. The third component is the log of the calls: the slot index of each call, in
  order.
\<close>

fun close_loop ::
  "(mat \<Rightarrow> string option \<times> mat) \<Rightarrow> string option \<Rightarrow> nat \<Rightarrow> mat list
     \<Rightarrow> string option \<times> mat list \<times> nat list" where
  "close_loop mat_Close err i [] = (err, [], [])"
| "close_loop mat_Close err i (img # rest) =
     (let (err1, img1, calls1) =
            (if err = None then (fst (mat_Close img), snd (mat_Close img), [i])
             else (err, img, []));
          img2 = snd (mat_Close img1);
          (r, rest', calls) = close_loop mat_Close err1 (Suc i) rest
      in (r, img2 # rest', calls1 @ [i] @ calls))"

definition Close ::
  "(mat \<Rightarrow> string option \<times> mat) \<Rightarrow> MatBuffer \<Rightarrow> string option \<times> MatBuffer \<times> nat list" where
  "Close mat_Close b =
     (let (err, imgs', calls) = close_loop mat_Close None 0 (imgs b)
      in (err, b\<lparr>imgs := imgs'\<rparr>, calls))"

definition Add :: "MatBuffer \<Rightarrow> mat \<Rightarrow> time \<Rightarrow> error + MatBuffer" where
  "Add b img t =
     ebind (go_rem (writes b) (int (length (imgs b)))) (\<lambda>i.
       if \<not> (0 \<le> i \<and> i < int (length (imgs b))) then Inl Panic
       else if \<not> (0 \<le> i \<and> i < int (length (times b))) then Inl Panic
       else Inr (b\<lparr>imgs := (imgs b)[nat i := img],
                   times := (times b)[nat i := t],
                   writes := wrap64 (writes b + 1)\<rparr>))"

definition TimeWindow :: "MatBuffer \<Rightarrow> error + time \<times> time" where
  "TimeWindow b =
     (if writes b = 0 then Inr (0, 0)
      else if writes b \<le> int (length (imgs b)) then
        ebind (index (times b) 0) (\<lambda>t0.
        ebind (index (times b) (wrap64 (writes b - 1))) (\<lambda>t1.
        Inr (t0, t1)))
      else
        ebind (go_rem (writes b) (int (length (imgs b)))) (\<lambda>first.
        ebind (go_rem (wrap64 (wrap64 (writes b - 1) + int (length (imgs b))))
                      (int (length (imgs b)))) (\<lambda>last.
        ebind (index (times b) first) (\<lambda>t0.
        ebind (index (times b) last) (\<lambda>t1.
        Inr (t0, t1))))))"

definition Duration :: "MatBuffer \<Rightarrow> error + duration" where
  "Duration b = ebind (TimeWindow b) (\<lambda>(oldest, newest). Inr (time_Sub newest oldest))"

definition Count :: "MatBuffer \<Rightarrow> int" where
  "Count b = int (length (imgs b))"

definition FPS :: "MatBuffer \<Rightarrow> error + float64" where
  "FPS b =
     (if writes b < 2 then Inr FZero
      else ebind (Duration b) (\<lambda>seconds.
        if writes b < int (length (imgs b)) then Inr (FQuot (writes b) seconds)
        else Inr (FQuot (int (length (imgs b))) seconds)))"

definition Slice :: "MatBuffer \<Rightarrow> error + mat list" where
  "Slice b =
     (if writes b \<le> int (length (imgs b)) then slice (imgs b) 0 (writes b)
      else
        ebind (go_rem (writes b) (int (length (imgs b)))) (\<lambda>i.
        ebind (slice (imgs b) i (int (length (imgs b)))) (\<lambda>back.
        ebind (slice (imgs b) 0 i) (\<lambda>front.
        Inr (back @ front)))))"

text \<open>
  \<open>WriteFile\<close> talks to an external video writer. Its calls are logged in order:
  \<open>VWOpen\<close> for \<open>gocv.VideoWriterFile\<close>, \<open>VWWrite\<close> for \<open>vw.Write\<close>, \<open>VWClose\<close> for the
  deferred \<open>vw.Close\<close>. The writer's answers are parameters: \<open>vw_open\<close> is the error of
  opening (or \<open>None\<close>), \<open>vw_write k img\<close> the error of the \<open>k\<close>-th write (or \<open>None\<close>).
\<close>

datatype vw_call =
    VWOpen string string float64 int int
  | VWWrite mat
  | VWClose

fun write_loop ::
  "(nat \<Rightarrow> mat \<Rightarrow> string option) \<Rightarrow> int \<Rightarrow> int \<Rightarrow> nat \<Rightarrow> mat list
     \<Rightarrow> error option \<times> vw_call list" where
  "write_loop vw_write width height k [] = (None, [])"
| "write_loop vw_write width height k (img # rest) =
     (if Cols img \<noteq> width \<or> Rows img \<noteq> height then (Some DimensionMismatch, [])
      else (case vw_write k img of
              Some e \<Rightarrow> (Some (WriteFailed e), [VWWrite img])
            | None \<Rightarrow>
                (let (r, calls) = write_loop vw_write width height (Suc k) rest
                 in (r, VWWrite img # calls))))"

definition WriteFile ::
  "(string \<Rightarrow> string \<Rightarrow> float64 \<Rightarrow> int \<Rightarrow> int \<Rightarrow> string option) \<Rightarrow> (nat \<Rightarrow> mat \<Rightarrow> string option)
     \<Rightarrow> MatBuffer \<Rightarrow> string \<Rightarrow> string \<Rightarrow> error option \<times> vw_call list" where
  "WriteFile vw_open vw_write b filename codec =
     (case Slice b of
        Inl e \<Rightarrow> (Some e, [])
      | Inr frames \<Rightarrow>
          if length frames < 2 then (Some InsufficientFrames, [])
          else
            (let width = Cols (frames ! 0); height = Rows (frames ! 0)
             in case FPS b of
                  Inl e \<Rightarrow> (Some e, [])
                | Inr fps \<Rightarrow>
                    (case vw_open filename codec fps width height of
                       Some e \<Rightarrow>
                         (Some (WriterOpenFailed e), [VWOpen filename codec fps width height])
                     | None \<Rightarrow>
                         (let (r, calls) = write_loop vw_write width height 0 frames
                          in (r, VWOpen filename codec fps width height # calls @ [VWClose])))))"

text \<open>A run of the capture loop on the buffer: the frames are added one after the other.\<close>

fun adds :: "MatBuffer \<Rightarrow> (mat \<times> time) list \<Rightarrow> error + MatBuffer" where
  "adds b [] = Inr b"
| "adds b ((img, t) # rest) = ebind (Add b img t) (\<lambda>b'. adds b' rest)"

text \<open>
  What \<open>NewMatBuffer\<close> establishes and \<open>Add\<close> keeps, as long as the write counter stays
  away from the largest \<open>int\<close>: both slices have the same length, the counter is not
  negative, \<open>writes - 1 + len(imgs)\<close> does not overflow, and a buffer that was written to
  has at least one slot.
\<close>

definition well_formed :: "MatBuffer \<Rightarrow> bool" where
  "well_formed b = (length (times b) = length (imgs b) \<and> 0 \<le> writes b
                    \<and> writes b + int (length (imgs b)) \<le> 2 ^ 63
                    \<and> (0 < writes b \<longrightarrow> imgs b \<noteq> []))"

section \<open>buffer.go: FPSCounter\<close>

text \<open>
  The struct, without its channel and its ticker: what arrives on them is an input of
  \<open>runTicker\<close> below. The exported field \<open>FPS\<close> is \<open>counterFPS\<close> here (\<open>FPS\<close> is the
  method of \<open>MatBuffer\<close>).
\<close>

record FPSCounter =
  counterFPS :: float64
  ticks :: int
  frames :: "int list"
  durations :: "duration list"
  totalFrames :: int
  totalDuration :: duration

definition NewFPSCounter :: "int \<Rightarrow> error + FPSCounter" where
  "NewFPSCounter seconds =
     (if seconds < 0 then Inl Panic
      else Inr \<lparr>counterFPS = FZero, ticks = 0,
                frames = replicate (nat seconds) 0,
                durations = replicate (nat seconds) 0,
                totalFrames = 0, totalDuration = 0\<rparr>)"

text \<open>\<open>xs[i] = v\<close>.\<close>

definition store :: "'a list \<Rightarrow> int \<Rightarrow> 'a \<Rightarrow> error + 'a list" where
  "store xs i v = (if 0 \<le> i \<and> i < int (length xs) then Inr (xs[nat i := v]) else Inl Panic)"

definition NextFrame :: "FPSCounter \<Rightarrow> error + FPSCounter" where
  "NextFrame c =
     ebind (go_rem (ticks c) (int (length (frames c)))) (\<lambda>i.
     ebind (index (frames c) i) (\<lambda>v.
     ebind (store (frames c) i (wrap64 (v + 1))) (\<lambda>fs.
     Inr (c\<lparr>frames := fs\<rparr>))))"

definition counter_Duration :: "FPSCounter \<Rightarrow> duration" where
  "counter_Duration c = totalDuration c"

text \<open>
  The local variables of \<open>runTicker\<close>, and the statements of its \<open>case t := <-c.ticker.C\<close>
  branch, one constructor for each source line (lines 178 to 193 of buffer.go).
\<close>

record locals =
  lastTime :: time
  lastDuration :: duration
  idx :: int

datatype line =
    L178 | L179 | L181 | L182 | L183 | L184 | L186 | L187 | L188 | L189 | L190 | L191 | L193

fun exec :: "line \<Rightarrow> time \<Rightarrow> FPSCounter \<times> locals \<Rightarrow> error + FPSCounter \<times> locals" where
  "exec L178 t (c, l) = Inr (c, l\<lparr>lastDuration := time_Sub t (lastTime l)\<rparr>)"
| "exec L179 t (c, l) = Inr (c, l\<lparr>lastTime := t\<rparr>)"
| "exec L181 t (c, l) =
     ebind (go_rem (ticks c) (int (length (frames c)))) (\<lambda>i. Inr (c, l\<lparr>idx := i\<rparr>))"
| "exec L182 t (c, l) =
     ebind (store (durations c) (idx l) (lastDuration l)) (\<lambda>ds. Inr (c\<lparr>durations := ds\<rparr>, l))"
| "exec L183 t (c, l) =
     ebind (index (frames c) (idx l)) (\<lambda>v.
       Inr (c\<lparr>totalFrames := wrap64 (totalFrames c + v)\<rparr>, l))"
| "exec L184 t (c, l) =
     ebind (index (durations c) (idx l)) (\<lambda>d.
       Inr (c\<lparr>totalDuration := wrap64 (totalDuration c + d)\<rparr>, l))"
| "exec L186 t (c, l) = Inr (c\<lparr>ticks := wrap64 (ticks c + 1)\<rparr>, l)"
| "exec L187 t (c, l) =
     ebind (go_rem (ticks c) (int (length (frames c)))) (\<lambda>i. Inr (c, l\<lparr>idx := i\<rparr>))"
| "exec L188 t (c, l) =
     ebind (index (frames c) (idx l)) (\<lambda>v.
       Inr (c\<lparr>totalFrames := wrap64 (totalFrames c - v)\<rparr>, l))"
| "exec L189 t (c, l) =
     ebind (index (durations c) (idx l)) (\<lambda>d.
       Inr (c\<lparr>totalDuration := wrap64 (totalDuration c - d)\<rparr>, l))"
| "exec L190 t (c, l) =
     ebind (store (frames c) (idx l) 0) (\<lambda>fs. Inr (c\<lparr>frames := fs\<rparr>, l))"
| "exec L191 t (c, l) =
     ebind (store (durations c) (idx l) 0) (\<lambda>ds. Inr (c\<lparr>durations := ds\<rparr>, l))"
| "exec L193 t (c, l) =
     Inr (c\<lparr>counterFPS := FQuot (totalFrames c) (totalDuration c)\<rparr>, l)"

fun exec_lines ::
  "line list \<Rightarrow> time \<Rightarrow> FPSCounter \<times> locals \<Rightarrow> error + FPSCounter \<times> locals" where
  "exec_lines [] t s = Inr s"
| "exec_lines (stmt # rest) t s = ebind (exec stmt t s) (exec_lines rest t)"

definition tick_body :: "line list" where
  "tick_body = [L178, L179, L181, L182, L183, L184, L186, L187, L188, L189, L190, L191, L193]"

definition tick :: "time \<Rightarrow> FPSCounter \<times> locals \<Rightarrow> error + FPSCounter \<times> locals" where
  "tick t s = exec_lines tick_body t s"

text \<open>
  What happens during a run, in order: the producer calls \<open>NextFrame\<close> (\<open>Frame\<close>), the
  ticker delivers the time \<open>t\<close> on \<open>c.ticker.C\<close> (\<open>Tick t\<close>), or the value that \<open>Stop\<close> sends
  on \<open>c.done\<close> is received (\<open>Done\<close>); \<open>Stop\<close> returns at that moment, the channel being
  unbuffered. Here \<open>NextFrame\<close> and the body of a tick do not overlap.
\<close>

datatype action = Frame | Tick time | Done

text \<open>
  The \<open>for { select { ... } }\<close> loop. In the \<open>case <-c.done\<close> branch the \<open>break\<close> leaves
  the \<open>select\<close> statement, which is the innermost statement it can leave, and the \<open>for\<close>
  loop goes on with the next \<open>select\<close>. The loop has no other exit: on a finite list of
  actions the result is the state in which the task waits for the next one.
\<close>

fun select_loop :: "FPSCounter \<times> locals \<Rightarrow> action list \<Rightarrow> error + FPSCounter \<times> locals" where
  "select_loop s [] = Inr s"
| "select_loop (c, l) (Frame # rest) =
     ebind (NextFrame c) (\<lambda>c'. select_loop (c', l) rest)"
| "select_loop s (Tick t # rest) = ebind (tick t s) (\<lambda>s'. select_loop s' rest)"
| "select_loop s (Done # rest) = select_loop s rest"

text \<open>
  Before the loop, \<open><-c.ticker.C\<close> waits for the first tick and drops its value; the
  producer may call \<open>NextFrame\<close> meanwhile. Nothing receives from \<open>c.done\<close> there, so
  that a \<open>Done\<close> before the first tick is not part of a run; such an entry is skipped.
\<close>

fun first_tick :: "FPSCounter \<Rightarrow> action list \<Rightarrow> error + FPSCounter \<times> action list" where
  "first_tick c [] = Inr (c, [])"
| "first_tick c (Frame # rest) = ebind (NextFrame c) (\<lambda>c'. first_tick c' rest)"
| "first_tick c (Tick t # rest) = Inr (c, rest)"
| "first_tick c (Done # rest) = first_tick c rest"

definition runTicker :: "time \<Rightarrow> FPSCounter \<Rightarrow> action list \<Rightarrow> error + FPSCounter \<times> locals" where
  "runTicker now c acts =
     ebind (first_tick c acts) (\<lambda>(c', rest).
       select_loop (c', \<lparr>lastTime = now, lastDuration = 0, idx = 0\<rparr>) rest)"

text \<open>
  A tick whose body is overtaken by the producer: the first \<open>k\<close> lines of the body run,
  then one call of \<open>NextFrame\<close>, then the remaining lines. Each line and the call are
  taken as indivisible, which is the coarsest interleaving of the two goroutines.
\<close>

definition tick_overtaken ::
  "nat \<Rightarrow> time \<Rightarrow> FPSCounter \<times> locals \<Rightarrow> error + FPSCounter \<times> locals" where
  "tick_overtaken k t s =
     ebind (exec_lines (take k tick_body) t s) (\<lambda>(c, l).
     ebind (NextFrame c) (\<lambda>c'.
     exec_lines (drop k tick_body) t (c', l)))"

section \<open>Notions used in the statements\<close>

text \<open>
  The ring after the frames \<open>fs\<close> were added to a fresh buffer of \<open>C\<close> slots: the
  \<open>k\<close>-th frame sits in slot \<open>k mod C\<close>, for each of the last \<open>C\<close> frames.
\<close>

definition ring :: "nat \<Rightarrow> (mat \<times> time) list \<Rightarrow> MatBuffer \<Rightarrow> bool" where
  "ring C fs b = (length (imgs b) = C \<and> length (times b) = C \<and> writes b = int (length fs)
     \<and> (\<forall>k < length fs. length fs \<le> k + C \<longrightarrow> imgs b ! (k mod C) = fst (fs ! k)))"

text \<open>
  The test of the export loop, \<open>img.Cols() != width || img.Rows() != height\<close>, negated;
  and the frames handed to \<open>vw.Write\<close> in a log of calls.
\<close>

definition same_size :: "int \<Rightarrow> int \<Rightarrow> mat \<Rightarrow> bool" where
  "same_size width height img = (Cols img = width \<and> Rows img = height)"

fun written :: "vw_call list \<Rightarrow> mat list" where
  "written [] = []"
| "written (VWWrite img # calls) = img # written calls"
| "written (VWOpen name codec fps w h # calls) = written calls"
| "written (VWClose # calls) = written calls"



text \<open>
  One possible \<open>gocv.Mat.Close\<close>: it frees the data, and fails on a matrix whose data
  is already gone.
\<close>

definition close_once :: "mat \<Rightarrow> string option \<times> mat" where
  "close_once m = (if pixels m = [] then Some ''already closed'' else None, m\<lparr>pixels := []\<rparr>)"

section \<open>Helper facts about the primitives\<close>

lemma wrap64_id: "- (2 ^ 63) \<le> x \<Longrightarrow> x < 2 ^ 63 \<Longrightarrow> wrap64 x = x"
  unfolding wrap64_def by simp

lemma go_rem_nonneg: "0 \<le> a \<Longrightarrow> 0 < b \<Longrightarrow> go_rem a b = Inr (a mod b)"
  unfolding go_rem_def by (cases "a = 0") simp_all

lemma ebind_Inr [simp]: "ebind (Inr x) f = f x"
  by (simp add: ebind_def)

lemma ebind_Inl [simp]: "ebind (Inl e) f = Inl e"
  by (simp add: ebind_def)

section \<open>The ordered snapshot\<close>

lemma Slice_well_formed:
  assumes "well_formed b"
  shows "Slice b =
     Inr (if writes b \<le> int (length (imgs b)) then take (nat (writes b)) (imgs b)
          else drop (nat (writes b mod int (length (imgs b)))) (imgs b)
               @ take (nat (writes b mod int (length (imgs b)))) (imgs b))"
proof (cases "writes b \<le> int (length (imgs b))")
  case True
  with assms show ?thesis by (simp add: Slice_def slice_def well_formed_def)
next
  case False
  with assms have pos: "0 < int (length (imgs b))" and w: "0 \<le> writes b"
    by (auto simp: well_formed_def)
  have r: "go_rem (writes b) (int (length (imgs b))) = Inr (writes b mod int (length (imgs b)))"
    using w pos by (rule go_rem_nonneg)
  have lt: "writes b mod int (length (imgs b)) < int (length (imgs b))"
    using pos by simp
  have ge: "0 \<le> writes b mod int (length (imgs b))"
    using pos by simp
  show ?thesis using False lt ge
    by (simp add: Slice_def r slice_def)
qed

lemma length_Slice:
  assumes "well_formed b" "Slice b = Inr xs"
  shows "int (length xs) = min (writes b) (Count b)"
proof (cases "writes b \<le> int (length (imgs b))")
  case True
  with assms show ?thesis by (auto simp: Slice_well_formed Count_def well_formed_def)
next
  case False
  with assms have pos: "0 < int (length (imgs b))" by (auto simp: well_formed_def)
  have lt: "writes b mod int (length (imgs b)) < int (length (imgs b))"
    using pos by simp
  show ?thesis using assms False lt by (auto simp: Slice_well_formed Count_def)
qed

section \<open>Export\<close>

text \<open>
  C6. A buffer that holds fewer than two frames (\<open>min (writes b) (Count b) < 2\<close>) is not
  exported: \<open>WriteFile\<close> returns the error "need at least 2 frames"
  (\<open>InsufficientFrames\<close>) and its log of calls to the video writer is empty: the writer
  is not opened and no frame is written.
\<close>

theorem WriteFile_insufficient:
  assumes "well_formed b" and "min (writes b) (Count b) < 2"
  shows "WriteFile vw_open vw_write b filename codec = (Some InsufficientFrames, [])"
proof -
  obtain xs where xs: "Slice b = Inr xs"
    using Slice_well_formed [OF assms(1)] by blast
  have "int (length xs) < 2"
    using length_Slice [OF assms(1) xs] assms(2) by simp
  then show ?thesis by (simp add: WriteFile_def xs)
qed

theorem WriteFile_insufficient_witness:
  "well_formed \<lparr>imgs = [\<lparr>Cols = 4, Rows = 3, pixels = [7]\<rparr>, NewMat, NewMat],
                times = [5, 0, 0], writes = 1\<rparr>
   \<and> min (writes \<lparr>imgs = [\<lparr>Cols = 4, Rows = 3, pixels = [7]\<rparr>, NewMat, NewMat],
                   times = [5, 0, 0], writes = 1\<rparr>)
          (Count \<lparr>imgs = [\<lparr>Cols = 4, Rows = 3, pixels = [7]\<rparr>, NewMat, NewMat],
                  times = [5, 0, 0], writes = 1\<rparr>) < 2
   \<and> WriteFile (\<lambda>name codec fps w h. None) (\<lambda>k img. None)
        \<lparr>imgs = [\<lparr>Cols = 4, Rows = 3, pixels = [7]\<rparr>, NewMat, NewMat],
         times = [5, 0, 0], writes = 1\<rparr> ''video.mp4'' ''mp4v''
      = (Some InsufficientFrames, [])"
proof -
  have h1: "well_formed \<lparr>imgs = [\<lparr>Cols = 4, Rows = 3, pixels = [7]\<rparr>, NewMat, NewMat],
                         times = [5, 0, 0], writes = 1\<rparr>"
    by (simp add: well_formed_def)
  have h2: "min (writes \<lparr>imgs = [\<lparr>Cols = 4, Rows = 3, pixels = [7]\<rparr>, NewMat, NewMat],
                         times = [5, 0, 0], writes = 1\<rparr>)
                (Count \<lparr>imgs = [\<lparr>Cols = 4, Rows = 3, pixels = [7]\<rparr>, NewMat, NewMat],
                        times = [5, 0, 0], writes = 1\<rparr>) < 2"
    by (simp add: Count_def)
  show ?thesis
    using h1 h2 WriteFile_insufficient [OF h1 h2] by blast
qed

section \<open>The ring invariant\<close>

lemma adds_snoc:
  "adds b (fs @ [(img, t)]) = ebind (adds b fs) (\<lambda>b'. Add b' img t)"
proof (induction fs arbitrary: b)
  case Nil
  show ?case by (cases "Add b img t") simp_all
next
  case (Cons p fs)
  obtain i u where p: "p = (i, u)" by (cases p)
  show ?case by (cases "Add b i u") (simp_all add: p Cons.IH)
qed

lemma Add_in_range:
  assumes "length (imgs b) = C" "length (times b) = C" "0 < C"
    and "writes b = int n" "int n + 1 < 2 ^ 63"
  shows "Add b img t =
     Inr (b\<lparr>imgs := (imgs b)[n mod C := img], times := (times b)[n mod C := t],
            writes := int n + 1\<rparr>)"
proof -
  have r: "go_rem (int n) (int C) = Inr (int (n mod C))"
    using assms(3) by (simp add: go_rem_nonneg zmod_int)
  have w: "wrap64 (int n + 1) = int n + 1"
    using assms(5) by (intro wrap64_id) simp_all
  have lt: "n mod C < C" using assms(3) by simp
  show ?thesis
    using lt by (simp add: Add_def assms(1,2,4) r w del: of_nat_Suc)
qed

lemma mod_neq_within:
  fixes k n C :: nat
  assumes "k < n" "n < k + C"
  shows "k mod C \<noteq> n mod C"
proof
  assume e: "k mod C = n mod C"
  have "(n - k) mod C = 0"
    using e assms(1) by (metis less_imp_le_nat mod_eq_dvd_iff_nat dvd_imp_mod_0)
  moreover have "0 < n - k" "n - k < C" using assms by auto
  ultimately show False by simp
qed

lemma ring_Add:
  assumes rb: "ring C fs b" and C: "0 < C" and bound: "int (length fs) + 1 < 2 ^ 63"
  shows "\<exists>b'. Add b img t = Inr b' \<and> ring C (fs @ [(img, t)]) b'"
proof -
  let ?n = "length fs"
  have len: "length (imgs b) = C" "length (times b) = C" "writes b = int ?n"
    using rb by (simp_all add: ring_def)
  let ?b' = "b\<lparr>imgs := (imgs b)[?n mod C := img], times := (times b)[?n mod C := t],
            writes := int ?n + 1\<rparr>"
  have a: "Add b img t = Inr ?b'"
    by (rule Add_in_range [OF len(1,2) C len(3) bound])
  have nC: "?n mod C < C" using C by simp
  have slots: "\<forall>k < length (fs @ [(img, t)]). length (fs @ [(img, t)]) \<le> k + C
                 \<longrightarrow> imgs ?b' ! (k mod C) = fst ((fs @ [(img, t)]) ! k)"
  proof (intro allI impI)
    fix k assume k: "k < length (fs @ [(img, t)])" and near: "length (fs @ [(img, t)]) \<le> k + C"
    show "imgs ?b' ! (k mod C) = fst ((fs @ [(img, t)]) ! k)"
    proof (cases "k = ?n")
      case True
      then show ?thesis using nC len(1) by simp
    next
      case False
      with k have kn: "k < ?n" by simp
      have "?n < k + C" using near by simp
      with kn have ne: "k mod C \<noteq> ?n mod C" by (rule mod_neq_within)
      have "imgs b ! (k mod C) = fst (fs ! k)"
        using rb kn near by (simp add: ring_def)
      then show ?thesis using ne kn by (simp add: nth_append)
    qed
  qed
  have "ring C (fs @ [(img, t)]) ?b'"
    unfolding ring_def using slots len by simp
  with a show ?thesis by blast
qed

lemma ring_adds:
  assumes "0 < C" "int (length fs) + int C \<le> 2 ^ 63"
  shows "\<exists>b. adds (alloc C) fs = Inr b \<and> ring C fs b"
  using assms(2)
proof (induction fs rule: rev_induct)
  case Nil
  show ?case by (simp add: ring_def alloc_def)
next
  case (snoc p fs)
  obtain img t where p: "p = (img, t)" by (cases p)
  from snoc obtain b where b: "adds (alloc C) fs = Inr b" and rb: "ring C fs b"
    by auto
  have bound: "int (length fs) + 1 < 2 ^ 63"
    using snoc.prems assms(1) by simp
  from ring_Add [OF rb assms(1) bound, of img t]
  obtain b' where "Add b img t = Inr b'" "ring C (fs @ [(img, t)]) b'" by blast
  then show ?case by (simp add: p adds_snoc b)
qed

lemma ring_snapshot_small:
  assumes "ring C fs b" "length fs \<le> C"
  shows "take (length fs) (imgs b) = map fst fs"
proof (rule nth_equalityI)
  show "length (take (length fs) (imgs b)) = length (map fst fs)"
    using assms by (simp add: ring_def)
next
  fix i assume "i < length (take (length fs) (imgs b))"
  then have i: "i < length fs" by simp
  then have m: "i mod C = i" using assms(2) by simp
  have "imgs b ! (i mod C) = fst (fs ! i)"
    using assms i by (simp add: ring_def)
  then show "take (length fs) (imgs b) ! i = map fst fs ! i"
    using i m by simp
qed

lemma rotate_nth:
  assumes i: "i < C" and lenC: "length xs = C" and j: "j < C"
  shows "(drop i xs @ take i xs) ! j = xs ! ((i + j) mod C)"
proof (cases "i + j < C")
  case True
  then have a: "j < C - i" by simp
  have le: "i \<le> length xs" using i lenC by simp
  have "(drop i xs @ take i xs) ! j = drop i xs ! j"
    using a lenC by (simp add: nth_append)
  also have "\<dots> = xs ! (i + j)" using le by (rule nth_drop)
  also have "i + j = (i + j) mod C" using True by simp
  finally show ?thesis .
next
  case False
  then have a: "\<not> j < C - i" by simp
  have b: "j - (C - i) < i" using False i j by simp
  have e: "(i + j) mod C = j - (C - i)"
  proof -
    have "i + j = (j - (C - i)) + C" using False i by arith
    then have "(i + j) mod C = ((j - (C - i)) + C) mod C" by (rule arg_cong)
    also have "\<dots> = (j - (C - i)) mod C" by (rule mod_add_self2)
    also have "\<dots> = j - (C - i)" using b i by (intro mod_less) arith
    finally show ?thesis .
  qed
  have "(drop i xs @ take i xs) ! j = take i xs ! (j - (C - i))"
    using a i lenC by (simp add: nth_append)
  also have "\<dots> = xs ! (j - (C - i))" using b by (rule nth_take)
  finally show ?thesis unfolding e .
qed

lemma ring_snapshot_wrapped:
  assumes "ring C fs b" "C < length fs" "0 < C"
  shows "drop (length fs mod C) (imgs b) @ take (length fs mod C) (imgs b)
         = drop (length fs - C) (map fst fs)"
proof (rule nth_equalityI)
  let ?n = "length fs" and ?i = "length fs mod C"
  have i: "?i < C" using assms(3) by simp
  have lenC: "length (imgs b) = C" using assms(1) by (simp add: ring_def)
  show "length (drop ?i (imgs b) @ take ?i (imgs b)) = length (drop (?n - C) (map fst fs))"
    using assms(2) i lenC by simp
  fix j assume "j < length (drop ?i (imgs b) @ take ?i (imgs b))"
  then have j: "j < C" using i lenC by simp
  let ?k = "?n - C + j"
  have k: "?k < ?n" "?n \<le> ?k + C" using j assms(2) by simp_all
  have inv: "imgs b ! (?k mod C) = fst (fs ! ?k)"
    using assms(1) k unfolding ring_def by blast
  have e: "?k + C = ?n + j" using assms(2) by simp
  have "?k mod C = (?k + C) mod C" by (rule mod_add_self2 [symmetric])
  also have "\<dots> = (?n + j) mod C" using e by (rule arg_cong)
  also have "\<dots> = (?i + j) mod C" by (rule mod_add_left_eq [symmetric])
  finally have km: "?k mod C = (?i + j) mod C" .
  have lhs: "(drop ?i (imgs b) @ take ?i (imgs b)) ! j = imgs b ! ((?i + j) mod C)"
    using i lenC j by (rule rotate_nth)
  have rhs: "drop (?n - C) (map fst fs) ! j = fst (fs ! ?k)"
    using k assms(2) by simp
  show "(drop ?i (imgs b) @ take ?i (imgs b)) ! j = drop (?n - C) (map fst fs) ! j"
    unfolding lhs rhs km [symmetric] by (rule inv)
qed

lemma ring_well_formed:
  assumes "ring C fs b" "0 < C" "int (length fs) + int C \<le> 2 ^ 63"
  shows "well_formed b"
  using assms by (auto simp: ring_def well_formed_def)

lemma alloc_well_formed: "int n \<le> 2 ^ 63 \<Longrightarrow> well_formed (alloc n)"
  by (simp add: well_formed_def alloc_def)

lemma adds_well_formed:
  assumes "0 < C" and "int (length fs) + int C \<le> 2 ^ 63"
  shows "\<exists>b. adds (alloc C) fs = Inr b \<and> well_formed b"
  using ring_adds [OF assms] ring_well_formed [OF _ assms] by blast

text \<open>
  C4. Take a fresh buffer of \<open>C\<close> slots (\<open>0 < C\<close>) and add the frames \<open>fs\<close> to it, in
  order; the write counter stays in the range of an \<open>int\<close>. Every \<open>Add\<close> succeeds and
  the counter is the number of frames. \<open>Slice\<close> returns the first \<open>w\<close> slots in index order
  when \<open>w \<le> C\<close>, and otherwise the slots from index \<open>w mod C\<close> to the end followed by the
  slots before \<open>w mod C\<close>. In both cases this is the list of the last \<open>min w C\<close> frames
  added, oldest first: all of them while \<open>w \<le> C\<close>, the last \<open>C\<close> after \<open>C + k\<close> calls.
\<close>

theorem Slice_after_adds:
  assumes "0 < C" and "int (length fs) + int C \<le> 2 ^ 63"
  shows "\<exists>b. adds (alloc C) fs = Inr b \<and> writes b = int (length fs) \<and> length (imgs b) = C
          \<and> Slice b = Inr (if length fs \<le> C then take (length fs) (imgs b)
                          else drop (length fs mod C) (imgs b) @ take (length fs mod C) (imgs b))
          \<and> Slice b = Inr (drop (length fs - C) (map fst fs))"
proof -
  from ring_adds [OF assms] obtain b where b: "adds (alloc C) fs = Inr b" and rb: "ring C fs b"
    by blast
  have w: "writes b = int (length fs)" and l: "length (imgs b) = C"
    using rb by (simp_all add: ring_def)
  have wfb: "well_formed b" using rb assms by (rule ring_well_formed)
  have m: "nat (int (length fs) mod int C) = length fs mod C"
    by (simp add: zmod_int [symmetric])
  have s1: "Slice b = Inr (if length fs \<le> C then take (length fs) (imgs b)
                          else drop (length fs mod C) (imgs b) @ take (length fs mod C) (imgs b))"
    unfolding Slice_well_formed [OF wfb] w l m by simp
  have s2: "(if length fs \<le> C then take (length fs) (imgs b)
             else drop (length fs mod C) (imgs b) @ take (length fs mod C) (imgs b))
            = drop (length fs - C) (map fst fs)"
  proof (cases "length fs \<le> C")
    case True
    then show ?thesis using ring_snapshot_small [OF rb True] by simp
  next
    case False
    then have "C < length fs" by simp
    from ring_snapshot_wrapped [OF rb this assms(1)] False show ?thesis by simp
  qed
  show ?thesis using b w l s1 s2 by simp
qed

theorem Slice_after_adds_witness:
  "0 < (2::nat)
   \<and> int (length [(\<lparr>Cols = 4, Rows = 3, pixels = [1]\<rparr>, 10 :: time),
                   (\<lparr>Cols = 4, Rows = 3, pixels = [2]\<rparr>, 20),
                   (\<lparr>Cols = 4, Rows = 3, pixels = [3]\<rparr>, 30)]) + int 2 \<le> 2 ^ 63
   \<and> (\<exists>b. adds (alloc 2) [(\<lparr>Cols = 4, Rows = 3, pixels = [1]\<rparr>, 10),
                            (\<lparr>Cols = 4, Rows = 3, pixels = [2]\<rparr>, 20),
                            (\<lparr>Cols = 4, Rows = 3, pixels = [3]\<rparr>, 30)] = Inr b
          \<and> writes b = 3
          \<and> Slice b = Inr (drop (3 mod 2) (imgs b) @ take (3 mod 2) (imgs b))
          \<and> Slice b = Inr [\<lparr>Cols = 4, Rows = 3, pixels = [2]\<rparr>,
                           \<lparr>Cols = 4, Rows = 3, pixels = [3]\<rparr>])"
proof -
  have h1: "0 < (2::nat)" by simp
  have h2: "int (length [(\<lparr>Cols = 4, Rows = 3, pixels = [1]\<rparr>, 10 :: time),
                   (\<lparr>Cols = 4, Rows = 3, pixels = [2]\<rparr>, 20),
                   (\<lparr>Cols = 4, Rows = 3, pixels = [3]\<rparr>, 30)]) + int 2 \<le> 2 ^ 63"
    by simp
  show ?thesis
    using h1 h2 Slice_after_adds [OF h1 h2] by auto
qed

lemma TimeWindow_well_formed:
  assumes "well_formed b"
  shows "TimeWindow b =
     Inr (if writes b = 0 then (0, 0)
          else if writes b \<le> int (length (imgs b))
          then (times b ! 0, times b ! nat (writes b - 1))
          else (times b ! nat (writes b mod int (length (imgs b))),
                times b ! nat ((writes b - 1 + int (length (imgs b))) mod int (length (imgs b)))))"
proof -
  let ?w = "writes b" and ?len = "int (length (imgs b))"
  have t: "length (times b) = length (imgs b)" and w0: "0 \<le> ?w" and top: "?w + ?len \<le> 2 ^ 63"
    using assms by (simp_all add: well_formed_def)
  consider "?w = 0" | "0 < ?w" "?w \<le> ?len" | "?len < ?w" using w0 by linarith
  then show ?thesis
  proof cases
    case 1
    then show ?thesis by (simp add: TimeWindow_def)
  next
    case 2
    have w1: "wrap64 (?w - 1) = ?w - 1"
      using 2 top by (intro wrap64_id) simp_all
    have ne: "imgs b \<noteq> []" using 2 by auto
    show ?thesis using 2 ne by (simp add: TimeWindow_def w1 index_def t)
  next
    case 3
    have pos: "0 < ?len" using 3 assms by (auto simp: well_formed_def)
    have w1: "wrap64 (?w - 1) = ?w - 1"
      using 3 top by (intro wrap64_id) simp_all
    have w2: "wrap64 (?w - 1 + ?len) = ?w - 1 + ?len"
      using 3 top by (intro wrap64_id) simp_all
    have r1: "go_rem ?w ?len = Inr (?w mod ?len)"
      using w0 pos by (rule go_rem_nonneg)
    have r2: "go_rem (?w - 1 + ?len) ?len = Inr ((?w - 1 + ?len) mod ?len)"
      using 3 pos by (intro go_rem_nonneg) simp_all
    have b1: "0 \<le> ?w mod ?len" "?w mod ?len < ?len" using pos by simp_all
    have b2: "0 \<le> (?w - 1 + ?len) mod ?len" "(?w - 1 + ?len) mod ?len < ?len"
      using pos by simp_all
    have neq: "?w \<noteq> 0" "\<not> ?w \<le> ?len" using 3 by simp_all
    show ?thesis
      unfolding TimeWindow_def w1 w2 r1 r2 using neq b1 b2
      by (simp add: index_def t)
  qed
qed

lemma Duration_well_formed:
  assumes "well_formed b"
  shows "\<exists>d. Duration b = Inr d"
  unfolding Duration_def TimeWindow_well_formed [OF assms]
  by (simp split: prod.splits)

text \<open>
  C3. On a well-formed buffer \<open>Duration\<close> returns a value and \<open>FPS\<close> is the literal \<open>0\<close>
  when fewer than two frames were ever added; otherwise it is the quotient of
  \<open>min w capacity\<close> by the seconds of \<open>Duration\<close>: the numerator is \<open>w\<close> before the buffer
  has filled and the capacity from then on.
\<close>

theorem FPS_estimate:
  assumes "well_formed b"
  shows "(\<exists>d. Duration b = Inr d)
         \<and> FPS b = (if writes b < 2 then Inr FZero
                    else ebind (Duration b) (\<lambda>d. Inr (FQuot (min (writes b) (Count b)) d)))"
proof -
  obtain d where d: "Duration b = Inr d" using Duration_well_formed [OF assms] by blast
  show ?thesis by (simp add: FPS_def d Count_def min_def)
qed

theorem FPS_estimate_witness:
  "well_formed \<lparr>imgs = [\<lparr>Cols = 4, Rows = 3, pixels = [3]\<rparr>, \<lparr>Cols = 4, Rows = 3, pixels = [2]\<rparr>],
                times = [3000000000, 2000000000], writes = 3\<rparr>
   \<and> Duration \<lparr>imgs = [\<lparr>Cols = 4, Rows = 3, pixels = [3]\<rparr>, \<lparr>Cols = 4, Rows = 3, pixels = [2]\<rparr>],
                times = [3000000000, 2000000000], writes = 3\<rparr> = Inr 1000000000
   \<and> FPS \<lparr>imgs = [\<lparr>Cols = 4, Rows = 3, pixels = [3]\<rparr>, \<lparr>Cols = 4, Rows = 3, pixels = [2]\<rparr>],
           times = [3000000000, 2000000000], writes = 3\<rparr> = Inr (FQuot 2 1000000000)"
proof -
  have h: "well_formed \<lparr>imgs = [\<lparr>Cols = 4, Rows = 3, pixels = [3]\<rparr>, \<lparr>Cols = 4, Rows = 3, pixels = [2]\<rparr>],
                times = [3000000000, 2000000000], writes = 3\<rparr>"
    by (simp add: well_formed_def)
  have d: "Duration \<lparr>imgs = [\<lparr>Cols = 4, Rows = 3, pixels = [3]\<rparr>, \<lparr>Cols = 4, Rows = 3, pixels = [2]\<rparr>],
                times = [3000000000, 2000000000], writes = 3\<rparr> = Inr 1000000000"
    by (simp add: Duration_def TimeWindow_def go_rem_def wrap64_def index_def time_Sub_def
        minDuration_def maxDuration_def)
  show ?thesis
    using h d FPS_estimate [OF h] by (simp add: Count_def)
qed

section \<open>The export loop\<close>

lemma written_append: "written (xs @ ys) = written xs @ written ys"
  by (induction xs rule: written.induct) simp_all

lemma written_map: "written (map VWWrite xs) = xs"
  by (induction xs) simp_all

lemma write_loop_mismatch:
  assumes "\<forall>i < length (takeWhile (same_size w h) xs). vw_write (k + i) (xs ! i) = None"
    and "takeWhile (same_size w h) xs \<noteq> xs"
  shows "write_loop vw_write w h k xs
         = (Some DimensionMismatch, map VWWrite (takeWhile (same_size w h) xs))"
  using assms
proof (induction xs arbitrary: k)
  case Nil
  then show ?case by simp
next
  case (Cons img rest)
  show ?case
  proof (cases "same_size w h img")
    case False
    then have "Cols img \<noteq> w \<or> Rows img \<noteq> h" by (simp add: same_size_def)
    then show ?thesis using False by auto
  next
    case True
    then have c: "Cols img = w" "Rows img = h" by (simp_all add: same_size_def)
    have ok0: "vw_write k img = None"
      using Cons.prems(1) True by auto
    have rest_ok: "\<forall>i < length (takeWhile (same_size w h) rest). vw_write (Suc k + i) (rest ! i) = None"
    proof (intro allI impI)
      fix i assume "i < length (takeWhile (same_size w h) rest)"
      then have "Suc i < length (takeWhile (same_size w h) (img # rest))" using True by simp
      then have "vw_write (k + Suc i) ((img # rest) ! Suc i) = None"
        using Cons.prems(1) by blast
      then show "vw_write (Suc k + i) (rest ! i) = None" by simp
    qed
    have rest_ne: "takeWhile (same_size w h) rest \<noteq> rest"
      using Cons.prems(2) True by simp
    have "write_loop vw_write w h (Suc k) rest
          = (Some DimensionMismatch, map VWWrite (takeWhile (same_size w h) rest))"
      using rest_ok rest_ne by (rule Cons.IH)
    then show ?thesis using True c ok0 by simp
  qed
qed

lemma write_loop_written:
  "\<exists>n. written (snd (write_loop vw_write w h k xs)) = take n (takeWhile (same_size w h) xs)"
proof (induction xs arbitrary: k)
  case Nil
  show ?case by simp
next
  case (Cons img rest)
  show ?case
  proof (cases "same_size w h img")
    case False
    then have "Cols img \<noteq> w \<or> Rows img \<noteq> h" by (simp add: same_size_def)
    then have "written (snd (write_loop vw_write w h k (img # rest)))
            = take 0 (takeWhile (same_size w h) (img # rest))"
      by auto
    then show ?thesis by blast
  next
    case True
    then have c: "Cols img = w" "Rows img = h" by (simp_all add: same_size_def)
    show ?thesis
    proof (cases "vw_write k img")
      case (Some e)
      have "written (snd (write_loop vw_write w h k (img # rest)))
            = take 1 (takeWhile (same_size w h) (img # rest))"
        using True c Some by simp
      then show ?thesis by blast
    next
      case None
      from Cons.IH [of "Suc k"] obtain n where
        n: "written (snd (write_loop vw_write w h (Suc k) rest)) = take n (takeWhile (same_size w h) rest)"
        by blast
      have "written (snd (write_loop vw_write w h k (img # rest)))
            = take (Suc n) (takeWhile (same_size w h) (img # rest))"
        using True c None n by (simp add: case_prod_beta)
      then show ?thesis by blast
    qed
  qed
qed

text \<open>
  C7. Let \<open>xs\<close> be the snapshot and suppose some frame of it differs in size from the
  first one; the frames before the first such frame are
  \<open>takeWhile (same_size width height) xs\<close>. Whatever the video writer answers, the
  frames written are an initial part of these, in snapshot order: the mismatched frame
  and the frames after it are never written. If the writer opens and accepts the frames
  before the mismatch, \<open>WriteFile\<close> returns "not all frames have the same dimensions"
  (\<open>DimensionMismatch\<close>) and its calls are: open, one write for each frame before the
  mismatch, in order, and the deferred close.
\<close>

theorem WriteFile_dimension_mismatch:
  assumes snap: "Slice b = Inr xs"
    and mismatch: "takeWhile (same_size (Cols (xs ! 0)) (Rows (xs ! 0))) xs \<noteq> xs"
  shows "(\<exists>n. written (snd (WriteFile vw_open vw_write b filename codec))
              = take n (takeWhile (same_size (Cols (xs ! 0)) (Rows (xs ! 0))) xs))
       \<and> (FPS b = Inr fps
            \<and> vw_open filename codec fps (Cols (xs ! 0)) (Rows (xs ! 0)) = None
            \<and> (\<forall>i < length (takeWhile (same_size (Cols (xs ! 0)) (Rows (xs ! 0))) xs).
                  vw_write i (xs ! i) = None)
          \<longrightarrow> WriteFile vw_open vw_write b filename codec
              = (Some DimensionMismatch,
                 VWOpen filename codec fps (Cols (xs ! 0)) (Rows (xs ! 0))
                 # map VWWrite (takeWhile (same_size (Cols (xs ! 0)) (Rows (xs ! 0))) xs)
                 @ [VWClose]))"
proof -
  let ?w = "Cols (xs ! 0)" and ?h = "Rows (xs ! 0)"
  let ?ok = "takeWhile (same_size ?w ?h) xs"
  have two: "\<not> length xs < 2"
  proof
    assume "length xs < 2"
    then consider "xs = []" | x where "xs = [x]"
      by (cases xs; cases "tl xs") auto
    then show False using mismatch by cases (simp_all add: same_size_def)
  qed
  have part1: "\<exists>n. written (snd (WriteFile vw_open vw_write b filename codec)) = take n ?ok"
  proof (cases "FPS b")
    case (Inl e)
    then have "written (snd (WriteFile vw_open vw_write b filename codec)) = take 0 ?ok"
      using two by (simp add: WriteFile_def snap)
    then show ?thesis by blast
  next
    case (Inr r)
    show ?thesis
    proof (cases "vw_open filename codec r ?w ?h")
      case (Some e)
      then have "written (snd (WriteFile vw_open vw_write b filename codec)) = take 0 ?ok"
        using two Inr by (simp add: WriteFile_def snap)
      then show ?thesis by blast
    next
      case None
      obtain n where "written (snd (write_loop vw_write ?w ?h 0 xs)) = take n ?ok"
        using write_loop_written by blast
      then have "written (snd (WriteFile vw_open vw_write b filename codec)) = take n ?ok"
        using two Inr None
        by (simp add: WriteFile_def snap written_append Let_def case_prod_beta)
      then show ?thesis by blast
    qed
  qed
  have part2: "WriteFile vw_open vw_write b filename codec
              = (Some DimensionMismatch, VWOpen filename codec fps ?w ?h # map VWWrite ?ok @ [VWClose])"
    if f: "FPS b = Inr fps" and o: "vw_open filename codec fps ?w ?h = None"
      and ws: "\<forall>i < length ?ok. vw_write i (xs ! i) = None"
  proof -
    have "\<forall>i < length ?ok. vw_write (0 + i) (xs ! i) = None" using ws by simp
    then have "write_loop vw_write ?w ?h 0 xs = (Some DimensionMismatch, map VWWrite ?ok)"
      using mismatch by (rule write_loop_mismatch)
    then show ?thesis using two f o by (simp add: WriteFile_def snap Let_def)
  qed
  show ?thesis using part1 part2 by blast
qed

theorem WriteFile_dimension_mismatch_witness:
  "Slice \<lparr>imgs = [\<lparr>Cols = 4, Rows = 3, pixels = [1]\<rparr>, \<lparr>Cols = 4, Rows = 3, pixels = [2]\<rparr>,
                  \<lparr>Cols = 5, Rows = 3, pixels = [3]\<rparr>, \<lparr>Cols = 4, Rows = 3, pixels = [4]\<rparr>],
          times = [10, 20, 30, 40], writes = 4\<rparr>
     = Inr [\<lparr>Cols = 4, Rows = 3, pixels = [1]\<rparr>, \<lparr>Cols = 4, Rows = 3, pixels = [2]\<rparr>,
            \<lparr>Cols = 5, Rows = 3, pixels = [3]\<rparr>, \<lparr>Cols = 4, Rows = 3, pixels = [4]\<rparr>]
   \<and> WriteFile (\<lambda>name codec fps w h. None) (\<lambda>k img. None)
        \<lparr>imgs = [\<lparr>Cols = 4, Rows = 3, pixels = [1]\<rparr>, \<lparr>Cols = 4, Rows = 3, pixels = [2]\<rparr>,
                 \<lparr>Cols = 5, Rows = 3, pixels = [3]\<rparr>, \<lparr>Cols = 4, Rows = 3, pixels = [4]\<rparr>],
         times = [10, 20, 30, 40], writes = 4\<rparr> ''video.mp4'' ''mp4v''
     = (Some DimensionMismatch,
        [VWOpen ''video.mp4'' ''mp4v'' (FQuot 4 30) 4 3,
         VWWrite \<lparr>Cols = 4, Rows = 3, pixels = [1]\<rparr>,
         VWWrite \<lparr>Cols = 4, Rows = 3, pixels = [2]\<rparr>,
         VWClose])"
proof -
  let ?b = "\<lparr>imgs = [\<lparr>Cols = 4, Rows = 3, pixels = [1]\<rparr>, \<lparr>Cols = 4, Rows = 3, pixels = [2]\<rparr>,
                  \<lparr>Cols = 5, Rows = 3, pixels = [3]\<rparr>, \<lparr>Cols = 4, Rows = 3, pixels = [4]\<rparr>],
          times = [10, 20, 30, 40], writes = 4\<rparr>"
  let ?xs = "[\<lparr>Cols = 4, Rows = 3, pixels = [1]\<rparr>, \<lparr>Cols = 4, Rows = 3, pixels = [2]\<rparr>,
            \<lparr>Cols = 5, Rows = 3, pixels = [3]\<rparr>, \<lparr>Cols = 4, Rows = 3, pixels = [4 :: nat]\<rparr>]"
  have snap: "Slice ?b = Inr ?xs"
    by (simp add: Slice_def slice_def)
  have first: "takeWhile (same_size (Cols (?xs ! 0)) (Rows (?xs ! 0))) ?xs
               = [\<lparr>Cols = 4, Rows = 3, pixels = [1]\<rparr>, \<lparr>Cols = 4, Rows = 3, pixels = [2]\<rparr>]"
    by (simp add: same_size_def)
  have mismatch: "takeWhile (same_size (Cols (?xs ! 0)) (Rows (?xs ! 0))) ?xs \<noteq> ?xs"
    unfolding first by simp
  have fps: "FPS ?b = Inr (FQuot 4 30)"
    by (simp add: FPS_def Duration_def TimeWindow_def index_def wrap64_def time_Sub_def
        minDuration_def maxDuration_def)
  have accepted: "\<forall>i < length (takeWhile (same_size (Cols (?xs ! 0)) (Rows (?xs ! 0))) ?xs).
                    (\<lambda>k img. None :: string option) i (?xs ! i) = None"
    by simp
  have "WriteFile (\<lambda>name codec fps w h. None) (\<lambda>k img. None) ?b ''video.mp4'' ''mp4v''
        = (Some DimensionMismatch,
           VWOpen ''video.mp4'' ''mp4v'' (FQuot 4 30) (Cols (?xs ! 0)) (Rows (?xs ! 0))
           # map VWWrite (takeWhile (same_size (Cols (?xs ! 0)) (Rows (?xs ! 0))) ?xs)
           @ [VWClose])"
    using WriteFile_dimension_mismatch
            [OF snap mismatch, of "\<lambda>name codec fps w h. None" "\<lambda>k img. None"
               "''video.mp4''" "''mp4v''" "FQuot 4 30"]
          fps accepted
    by blast
  then show ?thesis unfolding first using snap by simp
qed

section \<open>Zero divisor\<close>

lemma time_Sub_self: "time_Sub t t = 0"
  by (simp add: time_Sub_def minDuration_def maxDuration_def)

text \<open>
  C10. The only guard of the division in \<open>FPS\<close> is \<open>writes < 2\<close>. On a well-formed buffer
  with at least two writes: if the capacity is 1, \<open>TimeWindow\<close> returns the same
  timestamp twice; and whenever \<open>TimeWindow\<close> returns the same timestamp twice,
  \<open>Duration\<close> is 0 and \<open>FPS\<close> is the quotient of \<open>min w capacity\<close> by the seconds of a
  zero duration, not the literal \<open>0\<close>.
\<close>

theorem FPS_zero_divisor:
  assumes "well_formed b" and "2 \<le> writes b"
  shows "(Count b = 1 \<longrightarrow> (\<exists>t. TimeWindow b = Inr (t, t)))
       \<and> ((\<exists>t. TimeWindow b = Inr (t, t))
            \<longrightarrow> Duration b = Inr 0
                \<and> FPS b = Inr (FQuot (min (writes b) (Count b)) 0)
                \<and> FPS b \<noteq> Inr FZero)"
proof (intro conjI impI)
  assume c: "Count b = 1"
  then have l: "int (length (imgs b)) = 1" by (simp add: Count_def)
  have "TimeWindow b = Inr (times b ! 0, times b ! 0)"
    unfolding TimeWindow_well_formed [OF assms(1)] l using assms(2) by simp
  then show "\<exists>t. TimeWindow b = Inr (t, t)" by blast
next
  assume "\<exists>t. TimeWindow b = Inr (t, t)"
  then obtain t where t: "TimeWindow b = Inr (t, t)" by blast
  show d: "Duration b = Inr 0" by (simp add: Duration_def t time_Sub_self)
  show f: "FPS b = Inr (FQuot (min (writes b) (Count b)) 0)"
    using assms(2) by (simp add: FPS_def d Count_def min_def)
  show "FPS b \<noteq> Inr FZero" unfolding f by simp
qed

theorem FPS_zero_divisor_witness:
  "well_formed \<lparr>imgs = [\<lparr>Cols = 4, Rows = 3, pixels = [2]\<rparr>], times = [20], writes = 2\<rparr>
   \<and> 2 \<le> writes \<lparr>imgs = [\<lparr>Cols = 4, Rows = 3, pixels = [2]\<rparr>], times = [20], writes = 2\<rparr>
   \<and> Count \<lparr>imgs = [\<lparr>Cols = 4, Rows = 3, pixels = [2]\<rparr>], times = [20], writes = 2\<rparr> = 1
   \<and> TimeWindow \<lparr>imgs = [\<lparr>Cols = 4, Rows = 3, pixels = [2]\<rparr>], times = [20], writes = 2\<rparr>
       = Inr (20, 20)
   \<and> Duration \<lparr>imgs = [\<lparr>Cols = 4, Rows = 3, pixels = [2]\<rparr>], times = [20], writes = 2\<rparr> = Inr 0
   \<and> FPS \<lparr>imgs = [\<lparr>Cols = 4, Rows = 3, pixels = [2]\<rparr>], times = [20], writes = 2\<rparr>
       = Inr (FQuot 1 0)"
proof -
  have h1: "well_formed \<lparr>imgs = [\<lparr>Cols = 4, Rows = 3, pixels = [2]\<rparr>], times = [20], writes = 2\<rparr>"
    by (simp add: well_formed_def)
  have h2: "2 \<le> writes \<lparr>imgs = [\<lparr>Cols = 4, Rows = 3, pixels = [2]\<rparr>], times = [20], writes = 2\<rparr>"
    by simp
  have c: "Count \<lparr>imgs = [\<lparr>Cols = 4, Rows = 3, pixels = [2]\<rparr>], times = [20], writes = 2\<rparr> = 1"
    by (simp add: Count_def)
  have t: "TimeWindow \<lparr>imgs = [\<lparr>Cols = 4, Rows = 3, pixels = [2]\<rparr>], times = [20], writes = 2\<rparr>
       = Inr (20, 20)"
    by (simp add: TimeWindow_def go_rem_def wrap64_def index_def)
  show ?thesis
    using h1 h2 c t FPS_zero_divisor [OF h1 h2] by simp
qed

lemma Add_Count:
  assumes "Add b img t = Inr b'"
  shows "Count b' = Count b"
proof (cases "go_rem (writes b) (int (length (imgs b)))")
  case (Inl e)
  with assms show ?thesis by (simp add: Add_def)
next
  case (Inr i)
  with assms show ?thesis by (auto simp: Add_def Count_def split: if_splits)
qed

section \<open>Release of the slots\<close>







text \<open>Three slots, the second of which fails at once.\<close>

lemma Close_example:
  "Close close_once
     \<lparr>imgs = [\<lparr>Cols = 4, Rows = 3, pixels = [1]\<rparr>, \<lparr>Cols = 4, Rows = 3, pixels = []\<rparr>,
              \<lparr>Cols = 4, Rows = 3, pixels = [3]\<rparr>],
      times = [10, 20, 30], writes = 3\<rparr>
   = (Some ''already closed'',
      \<lparr>imgs = [\<lparr>Cols = 4, Rows = 3, pixels = []\<rparr>, \<lparr>Cols = 4, Rows = 3, pixels = []\<rparr>,
               \<lparr>Cols = 4, Rows = 3, pixels = []\<rparr>],
       times = [10, 20, 30], writes = 3\<rparr>,
      [0, 0, 1, 1, 2])"
  by (simp add: Close_def close_once_def)

section \<open>The float64 arithmetic\<close>

lemma pow2_powi: "pow2 e = 2 powi e"
  by (simp add: pow2_def power_int_def field_simps)

lemma pow2_pos: "0 < pow2 e"
  by (simp add: pow2_powi)

lemma pow2_add: "pow2 (a + b) = pow2 a * pow2 b"
  by (simp add: pow2_powi power_int_add)

lemma pow2_diff: "pow2 (a - b) = pow2 a / pow2 b"
  by (simp add: pow2_powi power_int_diff)

lemma pow2_nat: "pow2 (int k) = 2 ^ k"
  by (simp add: pow2_def)

lemma pow2_1: "pow2 1 = 2"
  by (simp add: pow2_def)

text \<open>
  \<open>bit_length n\<close> is the number of binary digits of \<open>n\<close>, and \<open>ilog2 a d\<close> is the exponent
  of \<open>a / d\<close>.
\<close>

lemma bit_length_bounds:
  "0 < n \<Longrightarrow> 2 ^ (bit_length n - 1) \<le> n \<and> n < 2 ^ bit_length n"
proof (induction n rule: bit_length.induct)
  case (1 n)
  show ?case
  proof (cases "n div 2 = 0")
    case True
    with "1.prems" have "n = 1" by presburger
    then show ?thesis by (simp add: bit_length.simps)
  next
    case False
    then have pos: "0 < n div 2" by simp
    have b: "bit_length n = Suc (bit_length (n div 2))"
      using "1.prems" by (subst bit_length.simps) simp
    have ih: "2 ^ (bit_length (n div 2) - 1) \<le> n div 2 \<and> n div 2 < 2 ^ bit_length (n div 2)"
      using "1.IH" "1.prems" pos by simp
    have bp: "0 < bit_length (n div 2)"
      using pos by (subst bit_length.simps) simp
    then have e: "2 ^ bit_length (n div 2) = 2 * (2::nat) ^ (bit_length (n div 2) - 1)"
      by (cases "bit_length (n div 2)") simp_all
    have lo: "2 ^ bit_length (n div 2) \<le> n"
      using ih e by presburger
    have hi: "n < 2 * 2 ^ bit_length (n div 2)"
      using ih by presburger
    show ?thesis using lo hi by (simp add: b)
  qed
qed

lemma bit_length_real:
  assumes "0 < a"
  shows "pow2 (int (bit_length (nat a)) - 1) \<le> real_of_int a"
    and "real_of_int a < pow2 (int (bit_length (nat a)))"
proof -
  let ?l = "bit_length (nat a)"
  have n: "0 < nat a" using assms by simp
  from bit_length_bounds [OF n]
  have lo: "2 ^ (?l - 1) \<le> nat a" and hi: "nat a < 2 ^ ?l" by simp_all
  have lpos: "0 < ?l" using n by (subst bit_length.simps) simp
  then have "int ?l - 1 = int (?l - 1)" by simp
  then have "pow2 (int ?l - 1) = 2 ^ (?l - 1)" by (simp only: pow2_nat)
  also have "\<dots> = real (2 ^ (?l - 1))" by simp
  also have "\<dots> \<le> real (nat a)" using lo by (simp only: of_nat_le_iff)
  also have "\<dots> = real_of_int a" using assms by simp
  finally show "pow2 (int ?l - 1) \<le> real_of_int a" .
  have "real_of_int a = real (nat a)" using assms by simp
  also have "\<dots> < real (2 ^ ?l)" using hi by (simp only: of_nat_less_iff)
  also have "\<dots> = pow2 (int ?l)" by (simp add: pow2_nat)
  finally show "real_of_int a < pow2 (int ?l)" .
qed

lemma ilog2_test:
  assumes "0 < d"
  shows "(if 0 \<le> k then d * 2 ^ nat k \<le> a else d \<le> a * 2 ^ nat (- k))
         \<longleftrightarrow> pow2 k \<le> real_of_int a / real_of_int d"
proof (cases "0 \<le> k")
  case True
  have "(d * 2 ^ nat k \<le> a) \<longleftrightarrow> (real_of_int (d * 2 ^ nat k) \<le> real_of_int a)"
    by (simp only: of_int_le_iff)
  also have "\<dots> \<longleftrightarrow> (real_of_int d * pow2 k \<le> real_of_int a)"
    using True by (simp add: pow2_def)
  also have "\<dots> \<longleftrightarrow> (pow2 k \<le> real_of_int a / real_of_int d)"
    using assms by (simp add: pos_le_divide_eq mult.commute)
  finally show ?thesis using True by simp
next
  case False
  have p: "pow2 k = 1 / 2 ^ nat (- k)" using False by (simp add: pow2_def)
  have "(d \<le> a * 2 ^ nat (- k)) \<longleftrightarrow> (real_of_int d \<le> real_of_int (a * 2 ^ nat (- k)))"
    by (simp only: of_int_le_iff)
  also have "\<dots> \<longleftrightarrow> (real_of_int d \<le> real_of_int a * 2 ^ nat (- k))"
    by simp
  also have "\<dots> \<longleftrightarrow> (pow2 k \<le> real_of_int a / real_of_int d)"
    using assms unfolding p by (simp add: field_simps)
  finally show ?thesis using False by simp
qed

lemma ilog2_bounds:
  assumes a: "0 < a" and d: "0 < d"
  shows "pow2 (ilog2 a d) \<le> real_of_int a / real_of_int d"
    and "real_of_int a / real_of_int d < pow2 (ilog2 a d + 1)"
proof -
  let ?la = "int (bit_length (nat a))" and ?ld = "int (bit_length (nat d))"
  let ?k = "?la - ?ld"
  let ?x = "real_of_int a / real_of_int d"
  have A: "pow2 (?la - 1) \<le> real_of_int a" "real_of_int a < pow2 ?la"
    using bit_length_real [OF a] by simp_all
  have D: "pow2 (?ld - 1) \<le> real_of_int d" "real_of_int d < pow2 ?ld"
    using bit_length_real [OF d] by simp_all
  have dpos: "0 < real_of_int d" using d by simp
  have apos: "0 < real_of_int a" using a by simp
  have up: "?x < pow2 (?k + 1)"
  proof -
    have "?x < pow2 ?la / real_of_int d"
      using A(2) dpos by (simp add: divide_strict_right_mono)
    also have "\<dots> \<le> pow2 ?la / pow2 (?ld - 1)"
      using D(1) pow2_pos [of "?la"] pow2_pos [of "?ld - 1"]
      by (intro divide_left_mono) (simp_all add: less_imp_le)
    also have "\<dots> = pow2 (?la - (?ld - 1))" by (simp only: pow2_diff)
    also have "?la - (?ld - 1) = ?k + 1" by simp
    finally show ?thesis .
  qed
  have low: "pow2 (?k - 1) \<le> ?x"
  proof -
    have "pow2 (?k - 1) = pow2 ((?la - 1) - ?ld)" by (simp add: algebra_simps)
    also have "\<dots> = pow2 (?la - 1) / pow2 ?ld" by (simp only: pow2_diff)
    also have "\<dots> \<le> real_of_int a / pow2 ?ld"
      using A(1) pow2_pos [of ?ld] by (simp add: divide_right_mono less_imp_le)
    also have "\<dots> \<le> ?x"
      using D(2) apos dpos by (intro divide_left_mono) (simp_all add: less_imp_le)
    finally show ?thesis .
  qed
  have t: "(if 0 \<le> ?k then d * 2 ^ nat ?k \<le> a else d \<le> a * 2 ^ nat (- ?k)) \<longleftrightarrow> pow2 ?k \<le> ?x"
    using d by (rule ilog2_test)
  show "pow2 (ilog2 a d) \<le> ?x"
  proof (cases "pow2 ?k \<le> ?x")
    case True
    then have "ilog2 a d = ?k" using t by (simp add: ilog2_def Let_def)
    then show ?thesis using True by simp
  next
    case False
    then have "ilog2 a d = ?k - 1" using t by (simp add: ilog2_def Let_def)
    then show ?thesis using low by simp
  qed
  show "?x < pow2 (ilog2 a d + 1)"
  proof (cases "pow2 ?k \<le> ?x")
    case True
    then have "ilog2 a d = ?k" using t by (simp add: ilog2_def Let_def)
    then show ?thesis using up by simp
  next
    case False
    then have "ilog2 a d = ?k - 1" using t by (simp add: ilog2_def Let_def)
    then show ?thesis using False by simp
  qed
qed

text \<open>
  The rounding is to a nearest value: \<open>round_even\<close> is within one half of the fraction
  and even at a tie, and \<open>round_b64 n d\<close> is within half a unit \<open>2 ^ q\<close> of \<open>n / d\<close>, with a
  significand of at most \<open>2 ^ 53\<close> in absolute value.
\<close>

lemma round_even_error:
  assumes "0 < d"
  shows "\<bar>real_of_int (round_even n d) - real_of_int n / real_of_int d\<bar> \<le> 1 / 2"
proof -
  let ?q = "n div d" and ?r = "n mod d"
  have r: "0 \<le> ?r" "?r < d" using assms by simp_all
  have "n = ?q * d + ?r" by simp
  then have "real_of_int n = real_of_int ?q * real_of_int d + real_of_int ?r"
    by (metis of_int_add of_int_mult)
  then have x: "real_of_int n / real_of_int d = real_of_int ?q + real_of_int ?r / real_of_int d"
    using assms by (simp add: field_simps)
  have rd: "0 \<le> real_of_int ?r / real_of_int d" "real_of_int ?r / real_of_int d < 1"
    using r assms by simp_all
  consider "2 * ?r < d" | "d < 2 * ?r" | "2 * ?r = d" by linarith
  then show ?thesis
  proof cases
    case 1
    then have "real_of_int (2 * ?r) < real_of_int d" by (simp only: of_int_less_iff)
    then have "real_of_int ?r / real_of_int d < 1 / 2" using assms by (simp add: field_simps)
    moreover have "round_even n d = ?q" using 1 by (simp add: round_even_def Let_def)
    ultimately show ?thesis using x rd by simp
  next
    case 2
    then have "real_of_int d < real_of_int (2 * ?r)" by (simp only: of_int_less_iff)
    then have "1 / 2 < real_of_int ?r / real_of_int d" using assms by (simp add: field_simps)
    moreover have "round_even n d = ?q + 1" using 2 by (simp add: round_even_def Let_def)
    ultimately show ?thesis using x rd by simp
  next
    case 3
    then have "real_of_int (2 * ?r) = real_of_int d" by (simp only: of_int_eq_iff)
    then have h: "real_of_int ?r / real_of_int d = 1 / 2" using assms by (simp add: field_simps)
    have "round_even n d = ?q \<or> round_even n d = ?q + 1"
      using 3 by (simp add: round_even_def Let_def)
    then show ?thesis using x h by auto
  qed
qed

lemma pow2_mono: "a \<le> b \<Longrightarrow> pow2 a \<le> pow2 b"
  by (simp add: pow2_powi power_int_increasing)

lemma scale_error:
  fixes m x p :: real
  assumes "0 < p" and "\<bar>m - x / p\<bar> \<le> 1 / 2"
  shows "\<bar>m * p - x\<bar> \<le> p / 2"
proof -
  have "m * p - x = (m - x / p) * p" using assms(1) by (simp add: field_simps)
  then have "\<bar>m * p - x\<bar> = \<bar>m - x / p\<bar> * p" using assms(1) by (simp add: abs_mult)
  also have "\<dots> \<le> 1 / 2 * p" using assms by (intro mult_right_mono) simp_all
  finally show ?thesis by simp
qed

lemma round_b64_scaled:
  assumes n: "n \<noteq> 0" and d: "0 < d"
  defines "q \<equiv> max (ilog2 \<bar>n\<bar> d - 52) (- 1074)"
  shows "\<exists>m. round_b64 n d = B64 (sgn n * m) q
             \<and> \<bar>real_of_int m - real_of_int \<bar>n\<bar> / real_of_int d / pow2 q\<bar> \<le> 1 / 2"
proof (cases "0 \<le> q")
  case True
  let ?m = "round_even \<bar>n\<bar> (d * 2 ^ nat q)"
  have r: "round_b64 n d = B64 (sgn n * ?m) q"
    using n True by (simp add: round_b64_def Let_def q_def)
  have dq: "0 < d * 2 ^ nat q" using d by simp
  have p: "pow2 q = 2 ^ nat q" using True by (simp add: pow2_def)
  have eq: "real_of_int \<bar>n\<bar> / real_of_int (d * 2 ^ nat q)
             = real_of_int \<bar>n\<bar> / real_of_int d / pow2 q"
    unfolding p by simp
  have "\<bar>real_of_int ?m - real_of_int \<bar>n\<bar> / real_of_int (d * 2 ^ nat q)\<bar> \<le> 1 / 2"
    using dq by (rule round_even_error)
  then have "\<bar>real_of_int ?m - real_of_int \<bar>n\<bar> / real_of_int d / pow2 q\<bar> \<le> 1 / 2"
    by (simp only: eq)
  with r show ?thesis by blast
next
  case False
  let ?m = "round_even (\<bar>n\<bar> * 2 ^ nat (- q)) d"
  have r: "round_b64 n d = B64 (sgn n * ?m) q"
    using n False by (simp add: round_b64_def Let_def q_def)
  have p: "pow2 q = 1 / 2 ^ nat (- q)" using False by (simp add: pow2_def)
  have eq: "real_of_int (\<bar>n\<bar> * 2 ^ nat (- q)) / real_of_int d
        = real_of_int \<bar>n\<bar> / real_of_int d / pow2 q"
    unfolding p by simp
  have "\<bar>real_of_int ?m - real_of_int (\<bar>n\<bar> * 2 ^ nat (- q)) / real_of_int d\<bar> \<le> 1 / 2"
    using d by (rule round_even_error)
  then have "\<bar>real_of_int ?m - real_of_int \<bar>n\<bar> / real_of_int d / pow2 q\<bar> \<le> 1 / 2"
    by (simp only: eq)
  with r show ?thesis by blast
qed

lemma round_b64_error:
  assumes n: "n \<noteq> 0" and d: "0 < d"
  shows "\<bar>b64_val (round_b64 n d) - real_of_int n / real_of_int d\<bar>
         \<le> pow2 (max (ilog2 \<bar>n\<bar> d - 52) (- 1074)) / 2"
proof -
  let ?q = "max (ilog2 \<bar>n\<bar> d - 52) (- 1074)"
  let ?x = "real_of_int \<bar>n\<bar> / real_of_int d"
  from round_b64_scaled [OF n d] obtain m where
    r: "round_b64 n d = B64 (sgn n * m) ?q"
    and e: "\<bar>real_of_int m - ?x / pow2 ?q\<bar> \<le> 1 / 2"
    by blast
  have pq: "0 < pow2 ?q" by (rule pow2_pos)
  have s: "\<bar>real_of_int m * pow2 ?q - ?x\<bar> \<le> pow2 ?q / 2"
    using pq e by (rule scale_error)
  have v: "b64_val (round_b64 n d) = real_of_int (sgn n) * (real_of_int m * pow2 ?q)"
    unfolding r by (simp add: b64_val_def)
  have x: "real_of_int n / real_of_int d = real_of_int (sgn n) * ?x"
    by (simp add: sgn_if)
  have "\<bar>b64_val (round_b64 n d) - real_of_int n / real_of_int d\<bar>
        = \<bar>real_of_int (sgn n)\<bar> * \<bar>real_of_int m * pow2 ?q - ?x\<bar>"
    unfolding v x by (simp add: abs_mult [symmetric] right_diff_distrib)
  also have "\<bar>real_of_int (sgn n)\<bar> = 1" using n by (simp add: sgn_if)
  finally show ?thesis using s by simp
qed

lemma round_b64_significand:
  assumes n: "n \<noteq> 0" and d: "0 < d" and r: "round_b64 n d = B64 m q"
  shows "\<bar>m\<bar> \<le> 2 ^ 53" and "q = max (ilog2 \<bar>n\<bar> d - 52) (- 1074)"
proof -
  let ?e = "ilog2 \<bar>n\<bar> d"
  let ?q = "max (?e - 52) (- 1074)"
  let ?x = "real_of_int \<bar>n\<bar> / real_of_int d"
  from round_b64_scaled [OF n d] obtain m' where
    r': "round_b64 n d = B64 (sgn n * m') ?q"
    and e: "\<bar>real_of_int m' - ?x / pow2 ?q\<bar> \<le> 1 / 2"
    by blast
  from r r' have m: "m = sgn n * m'" and q: "q = ?q" by simp_all
  show "q = ?q" by (rule q)
  have a: "0 < \<bar>n\<bar>" using n by simp
  have "?x < pow2 (?e + 1)" using ilog2_bounds(2) [OF a d] .
  then have "?x / pow2 ?q < pow2 (?e + 1) / pow2 ?q"
    using pow2_pos [of ?q] by (rule divide_strict_right_mono)
  also have "\<dots> = pow2 (?e + 1 - ?q)" by (simp only: pow2_diff)
  also have "\<dots> \<le> pow2 53" by (rule pow2_mono) simp
  also have "pow2 53 = 2 ^ 53" by (simp add: pow2_def)
  finally have up: "?x / pow2 ?q < 2 ^ 53" .
  have "0 \<le> ?x" using d by simp
  then have lo: "0 \<le> ?x / pow2 ?q" using pow2_pos [of ?q] by (rule divide_nonneg_pos)
  have "real_of_int m' < 2 ^ 53 + 1" using e up by linarith
  then have "real_of_int m' < real_of_int (2 ^ 53 + 1)" by simp
  then have m1: "m' < 2 ^ 53 + 1" by (simp only: of_int_less_iff)
  have "- 1 < real_of_int m'" using e lo by linarith
  then have "real_of_int (- 1) < real_of_int m'" by simp
  then have m2: "- 1 < m'" by (simp only: of_int_less_iff)
  have "\<bar>m\<bar> = m'" using m m2 n by (simp add: abs_mult sgn_if)
  then show "\<bar>m\<bar> \<le> 2 ^ 53" using m1 by simp
qed

lemma round_even_tie:
  assumes "2 * (n mod d) = d"
  shows "even (round_even n d)"
  using assms by (simp add: round_even_def Let_def)

section \<open>Construction\<close>

text \<open>
  The arithmetic at a few inputs: five seconds, one second, a duration with a fraction,
  \<open>0.1 + 0.2\<close>, and \<open>0.6 * 5.0\<close>, whose exact value is just below 3 and which rounds to 3.
\<close>

lemmas b64_eval = b64_mul_def b64_add_def b64_div_1e9_def b64_of_int_def b64_num_def b64_den_def
  round_b64_def ilog2_def round_even_def Seconds_def go_quot_def bit_length.simps Let_def

lemma Seconds_5s: "Seconds 5000000000 = B64 5629499534213120 (- 50)"
  by (simp add: b64_eval)

lemma Seconds_1s: "Seconds 1000000000 = B64 4503599627370496 (- 52)"
  by (simp add: b64_eval)

lemma Seconds_mixed: "Seconds 1500000001 = B64 6755399445559344 (- 52)"
  by (simp add: b64_eval)

lemma b64_add_tenths:
  "b64_add (B64 7205759403792794 (- 56)) (B64 7205759403792794 (- 55))
   = B64 5404319552844596 (- 54)"
  by (simp add: b64_eval)

lemma b64_mul_rounds_up:
  "b64_mul (B64 5404319552844595 (- 53)) (B64 5629499534213120 (- 50))
   = B64 6755399441055744 (- 51)"
  by (simp add: b64_eval)

text \<open>The two failures of \<open>make\<close>.\<close>

lemma NewMatBuffer_negative:
  assumes "b64_val (b64_mul fps (Seconds d)) \<le> - 1"
  shows "NewMatBuffer maxlen d fps = Inl Panic"
proof -
  have "\<lceil>b64_val (b64_mul fps (Seconds d))\<rceil> \<le> - 1"
    using assms by (simp add: ceiling_le_iff)
  then show ?thesis using assms by (simp add: NewMatBuffer_def float_to_int_def Let_def)
qed

lemma NewMatBuffer_too_long:
  assumes "0 \<le> b64_val (b64_mul fps (Seconds d))"
    and "maxlen < \<lfloor>b64_val (b64_mul fps (Seconds d))\<rfloor>"
  shows "NewMatBuffer maxlen d fps = Inl Panic"
  using assms by (simp add: NewMatBuffer_def float_to_int_def Let_def)

text \<open>
  A frame rate of \<open>1e18\<close> (which is \<open>3814697265625 * 2 ^ 18\<close>) and one second, on a
  runtime whose longest slice has \<open>2 ^ 45\<close> elements: \<open>make\<close> panics.
\<close>

lemma NewMatBuffer_len_out_of_range:
  "NewMatBuffer 35184372088832 1000000000 (B64 3814697265625 18) = Inl Panic"
proof -
  have p: "b64_mul (B64 3814697265625 18) (Seconds 1000000000) = B64 7812500000000000 7"
    unfolding Seconds_1s by (simp add: b64_eval)
  have v: "b64_val (B64 7812500000000000 7) = 1000000000000000000"
    by (simp add: b64_val_def pow2_def)
  show ?thesis
    unfolding NewMatBuffer_def p v by (simp add: float_to_int_def)
qed

text \<open>
  C5, as the code has it. Let \<open>p\<close> be the \<open>float64\<close> product \<open>fps * duration.Seconds()\<close> as
  the program computes it, each operation rounded to the nearest \<open>float64\<close>. When \<open>p\<close> is
  not negative and \<open>\<lfloor>p\<rfloor>\<close> is a length that \<open>make\<close> can allocate, \<open>NewMatBuffer\<close> returns a
  buffer whose number of slots is \<open>\<lfloor>p\<rfloor>\<close>: the fraction of \<open>p\<close> is discarded, \<open>p\<close> is not
  rounded to the nearest integer. The buffer has as many timestamps, no writes, and
  \<open>Add\<close> does not change the number of slots.
\<close>

theorem NewMatBuffer_capacity:
  assumes "0 \<le> b64_val (b64_mul fps (Seconds d))"
    and "\<lfloor>b64_val (b64_mul fps (Seconds d))\<rfloor> \<le> maxlen" and "maxlen < 2 ^ 63"
  shows "\<exists>b. NewMatBuffer maxlen d fps = Inr b
            \<and> Count b = \<lfloor>b64_val (b64_mul fps (Seconds d))\<rfloor>
            \<and> length (times b) = length (imgs b) \<and> writes b = 0
            \<and> (\<forall>img t b'. Add b img t = Inr b' \<longrightarrow> Count b' = Count b)"
proof -
  let ?x = "b64_val (b64_mul fps (Seconds d))"
  have f: "float_to_int ?x = \<lfloor>?x\<rfloor>" using assms(1) by (simp add: float_to_int_def)
  have lo: "0 \<le> \<lfloor>?x\<rfloor>" using assms(1) by simp
  have hi: "\<lfloor>?x\<rfloor> < 2 ^ 63" using assms(2,3) by linarith
  have n: "NewMatBuffer maxlen d fps = Inr (alloc (nat \<lfloor>?x\<rfloor>))"
    using lo hi assms(2) by (simp add: NewMatBuffer_def f Let_def)
  have c: "Count (alloc (nat \<lfloor>?x\<rfloor>)) = \<lfloor>?x\<rfloor>" using lo by (simp add: Count_def alloc_def)
  show ?thesis using n c Add_Count by (auto simp: alloc_def)
qed

text \<open>
  At \<open>fps = 0.6\<close> (the \<open>float64\<close> nearest to it) and five seconds the product is the
  \<open>float64\<close> 3 and the buffer has 3 slots; without the rounding of the product its floor
  would be 2.
\<close>

theorem NewMatBuffer_capacity_witness:
  "0 \<le> b64_val (b64_mul (B64 5404319552844595 (- 53)) (Seconds 5000000000))
   \<and> \<lfloor>b64_val (b64_mul (B64 5404319552844595 (- 53)) (Seconds 5000000000))\<rfloor> \<le> 1000000
   \<and> (1000000 :: int) < 2 ^ 63
   \<and> \<lfloor>b64_val (B64 5404319552844595 (- 53)) * (5000000000 / 1000000000)\<rfloor> = 2
   \<and> (\<exists>b. NewMatBuffer 1000000 5000000000 (B64 5404319552844595 (- 53)) = Inr b
          \<and> Count b = 3
          \<and> Add b \<lparr>Cols = 4, Rows = 3, pixels = [1]\<rparr> 10
              = Inr (b\<lparr>imgs := (imgs b)[0 := \<lparr>Cols = 4, Rows = 3, pixels = [1]\<rparr>],
                       times := (times b)[0 := 10], writes := 1\<rparr>)
          \<and> Count (b\<lparr>imgs := (imgs b)[0 := \<lparr>Cols = 4, Rows = 3, pixels = [1]\<rparr>],
                       times := (times b)[0 := 10], writes := 1\<rparr>) = 3)"
proof -
  have p: "b64_mul (B64 5404319552844595 (- 53)) (Seconds 5000000000)
           = B64 6755399441055744 (- 51)"
    unfolding Seconds_5s by (rule b64_mul_rounds_up)
  have v: "b64_val (b64_mul (B64 5404319552844595 (- 53)) (Seconds 5000000000)) = 3"
    unfolding p by (simp add: b64_val_def pow2_def)
  have h1: "0 \<le> b64_val (b64_mul (B64 5404319552844595 (- 53)) (Seconds 5000000000))"
    unfolding v by simp
  have h2: "\<lfloor>b64_val (b64_mul (B64 5404319552844595 (- 53)) (Seconds 5000000000))\<rfloor> \<le> 1000000"
    unfolding v by simp
  have h3: "(1000000 :: int) < 2 ^ 63" by simp
  have ex: "\<lfloor>b64_val (B64 5404319552844595 (- 53)) * (5000000000 / 1000000000)\<rfloor> = 2"
    by (simp add: b64_val_def pow2_def)
  from NewMatBuffer_capacity [OF h1 h2 h3]
  obtain b where
    b: "NewMatBuffer 1000000 5000000000 (B64 5404319552844595 (- 53)) = Inr b"
    and c0: "Count b = \<lfloor>b64_val (b64_mul (B64 5404319552844595 (- 53)) (Seconds 5000000000))\<rfloor>"
    and l: "length (times b) = length (imgs b)" and w: "writes b = 0"
    and keep: "\<forall>img t b'. Add b img t = Inr b' \<longrightarrow> Count b' = Count b"
    by blast
  have c: "Count b = 3" using c0 unfolding v by simp
  have a: "Add b \<lparr>Cols = 4, Rows = 3, pixels = [1]\<rparr> 10
              = Inr (b\<lparr>imgs := (imgs b)[0 := \<lparr>Cols = 4, Rows = 3, pixels = [1]\<rparr>],
                       times := (times b)[0 := 10], writes := 1\<rparr>)"
    using c l w by (simp add: Add_def go_rem_def Count_def wrap64_def)
  have "Count (b\<lparr>imgs := (imgs b)[0 := \<lparr>Cols = 4, Rows = 3, pixels = [1]\<rparr>],
                       times := (times b)[0 := 10], writes := 1\<rparr>) = 3"
    using keep a c by metis
  then show ?thesis using h1 h2 h3 ex b c a by blast
qed

text \<open>
  C5, as stated, fails for \<open>fps = 1.5\<close> and a duration of one second: the product is
  exactly 1.5, the buffer has one slot, and \<open>round 1.5 = 2\<close>.
\<close>

theorem NewMatBuffer_truncates:
  "NewMatBuffer 1000000 1000000000 (B64 3 (- 1)) = Inr (alloc 1)
   \<and> Count (alloc 1) = 1
   \<and> b64_val (B64 3 (- 1)) = 3 / 2
   \<and> b64_val (Seconds 1000000000) = 1
   \<and> round (b64_val (B64 3 (- 1)) * b64_val (Seconds 1000000000)) = 2
   \<and> Count (alloc 1) \<noteq> round (b64_val (B64 3 (- 1)) * b64_val (Seconds 1000000000))"
proof -
  have p: "b64_mul (B64 3 (- 1)) (Seconds 1000000000) = B64 6755399441055744 (- 52)"
    unfolding Seconds_1s by (simp add: b64_eval)
  have n: "NewMatBuffer 1000000 1000000000 (B64 3 (- 1)) = Inr (alloc 1)"
    unfolding NewMatBuffer_def p
    by (simp add: b64_val_def pow2_def float_to_int_def)
  have s: "b64_val (Seconds 1000000000) = 1"
    unfolding Seconds_1s by (simp add: b64_val_def pow2_def)
  have f: "b64_val (B64 3 (- 1)) = 3 / 2" by (simp add: b64_val_def pow2_def)
  have r: "round (b64_val (B64 3 (- 1)) * b64_val (Seconds 1000000000)) = 2"
    unfolding s f by (simp add: round_def)
  have c: "Count (alloc 1) = 1" by (simp add: Count_def alloc_def)
  show ?thesis using n c f s r by simp
qed

section \<open>The rate counter\<close>

lemma Done_has_no_effect: "select_loop s (Done # acts) = select_loop s acts"
  by simp

lemma select_loop_append:
  "select_loop s (as @ bs) = ebind (select_loop s as) (\<lambda>s'. select_loop s' bs)"
proof (induction s as rule: select_loop.induct)
  case (1 s)
  show ?case by simp
next
  case (2 c l rest)
  show ?case by (cases "NextFrame c") (simp_all add: 2)
next
  case (3 s t rest)
  show ?case by (cases "tick t s") (simp_all add: 3)
next
  case (4 s rest)
  then show ?case by simp
qed

text \<open>
  One tick on a counter with \<open>n\<close> buckets, in closed form: the bucket \<open>ticks mod n\<close> is
  committed, and the bucket \<open>(ticks + 1) mod n\<close> is evicted and zeroed.
\<close>

lemma tick_commit_evict:
  assumes len: "length (durations c) = length (frames c)" and pos: "frames c \<noteq> []"
    and k: "0 \<le> ticks c" "ticks c + 1 < 2 ^ 63"
  shows "tick t (c, l) =
    (let n = int (length (frames c));
         i = nat (ticks c mod n);
         j = nat ((ticks c + 1) mod n);
         d = time_Sub t (lastTime l);
         ds = (durations c)[i := d];
         tf = wrap64 (wrap64 (totalFrames c + frames c ! i) - frames c ! j);
         td = wrap64 (wrap64 (totalDuration c + d) - ds ! j)
     in Inr (\<lparr>counterFPS = FQuot tf td, ticks = ticks c + 1,
               frames = (frames c)[j := 0], durations = ds[j := 0],
               totalFrames = tf, totalDuration = td\<rparr>,
             \<lparr>lastTime = t, lastDuration = d, idx = int j\<rparr>))"
proof -
  let ?n = "int (length (frames c))"
  have n: "0 < ?n" using pos by simp
  have r1: "go_rem (ticks c) ?n = Inr (ticks c mod ?n)"
    using k(1) n by (rule go_rem_nonneg)
  have w: "wrap64 (ticks c + 1) = ticks c + 1"
    using k by (intro wrap64_id) simp_all
  have r2: "go_rem (ticks c + 1) ?n = Inr ((ticks c + 1) mod ?n)"
    using k(1) n by (intro go_rem_nonneg) simp_all
  have b1: "0 \<le> ticks c mod ?n" "ticks c mod ?n < ?n" using n by simp_all
  have b2: "0 \<le> (ticks c + 1) mod ?n" "(ticks c + 1) mod ?n < ?n" using n by simp_all
  have i: "nat (ticks c mod ?n) < length (frames c)" using b1 by simp
  show ?thesis
    using b1 b2 i
    by (simp add: tick_def tick_body_def r1 r2 w store_def index_def len Let_def)
qed

text \<open>
  So the bucket committed by the tick that finds the counter at \<open>k\<close> is evicted by the
  tick that finds it at \<open>k + (n - 1)\<close>, and by none before.
\<close>

lemma evicting_tick:
  fixes k n :: int
  assumes "0 < n"
  shows "(k + (n - 1) + 1) mod n = k mod n"
    and "0 \<le> m \<Longrightarrow> m < n - 1 \<Longrightarrow> (k + m + 1) mod n \<noteq> k mod n"
proof -
  have "k + (n - 1) + 1 = k + n" by simp
  then show "(k + (n - 1) + 1) mod n = k mod n" by simp
next
  assume m: "0 \<le> m" "m < n - 1"
  show "(k + m + 1) mod n \<noteq> k mod n"
  proof
    assume "(k + m + 1) mod n = k mod n"
    then have "n dvd (k + m + 1) - k" by (simp only: mod_eq_dvd_iff)
    then have "n dvd m + 1" by simp
    then have "n \<le> m + 1" using m(1) by (intro zdvd_imp_le) simp_all
    then show False using m(2) by simp
  qed
qed

text \<open>
  C1. The code at the failing input: a counter of 3 buckets, one frame, then the stop
  signal is received, then the ticker delivers another tick. After the stop signal the
  task still waits in the loop, and the tick that follows changes the tick index, the
  durations, the running totals and the rate.
\<close>

theorem runTicker_ignores_Done:
  "ebind (NewFPSCounter 3) (\<lambda>c. runTicker 0 c [Tick 1000000000, Frame, Done])
     = Inr (\<lparr>counterFPS = FZero, ticks = 0, frames = [1, 0, 0], durations = [0, 0, 0],
              totalFrames = 0, totalDuration = 0\<rparr>,
            \<lparr>lastTime = 0, lastDuration = 0, idx = 0\<rparr>)
   \<and> ebind (NewFPSCounter 3) (\<lambda>c. runTicker 0 c [Tick 1000000000, Frame, Done, Tick 2000000000])
     = Inr (\<lparr>counterFPS = FQuot 1 2000000000, ticks = 1, frames = [1, 0, 0],
              durations = [2000000000, 0, 0], totalFrames = 1, totalDuration = 2000000000\<rparr>,
            \<lparr>lastTime = 2000000000, lastDuration = 2000000000, idx = 1\<rparr>)"
  by (simp add: NewFPSCounter_def numeral_3_eq_3 runTicker_def NextFrame_def go_rem_def index_def store_def
      wrap64_def tick_def tick_body_def time_Sub_def minDuration_def maxDuration_def)

text \<open>
  C2. The code at the failing input: a counter of 3 buckets and two frames before the
  first tick of the loop. That tick commits the bucket (\<open>totalFrames = 2\<close>, two seconds);
  the totals still hold it after the next tick, and the second tick after the commit
  subtracts it again (\<open>totalFrames = 0\<close>, bucket 0 zeroed): two ticks later, not three.
\<close>

theorem eviction_one_tick_early:
  "ebind (NewFPSCounter 3)
     (\<lambda>c. runTicker 0 c [Tick 1000000000, Frame, Frame, Tick 2000000000])
     = Inr (\<lparr>counterFPS = FQuot 2 2000000000, ticks = 1, frames = [2, 0, 0],
              durations = [2000000000, 0, 0], totalFrames = 2, totalDuration = 2000000000\<rparr>,
            \<lparr>lastTime = 2000000000, lastDuration = 2000000000, idx = 1\<rparr>)
   \<and> ebind (NewFPSCounter 3)
     (\<lambda>c. runTicker 0 c [Tick 1000000000, Frame, Frame, Tick 2000000000, Tick 3000000000])
     = Inr (\<lparr>counterFPS = FQuot 2 3000000000, ticks = 2, frames = [2, 0, 0],
              durations = [2000000000, 1000000000, 0], totalFrames = 2,
              totalDuration = 3000000000\<rparr>,
            \<lparr>lastTime = 3000000000, lastDuration = 1000000000, idx = 2\<rparr>)
   \<and> ebind (NewFPSCounter 3)
     (\<lambda>c. runTicker 0 c [Tick 1000000000, Frame, Frame, Tick 2000000000, Tick 3000000000,
                          Tick 4000000000])
     = Inr (\<lparr>counterFPS = FQuot 0 2000000000, ticks = 3, frames = [0, 0, 0],
              durations = [0, 1000000000, 1000000000], totalFrames = 0,
              totalDuration = 2000000000\<rparr>,
            \<lparr>lastTime = 4000000000, lastDuration = 1000000000, idx = 0\<rparr>)"
  by (simp add: NewFPSCounter_def numeral_3_eq_3 runTicker_def NextFrame_def go_rem_def index_def store_def
      wrap64_def tick_def tick_body_def time_Sub_def minDuration_def maxDuration_def)

text \<open>
  C9. The code at the failing input: a fresh counter of 3 buckets, one tick, one call of
  \<open>NextFrame\<close>. When the call comes after line 188 of the tick (9 lines of the body
  done), the result is the result of the tick alone: the frame is in no bucket and in no
  total. When it comes after line 186 (7 lines done), \<open>totalFrames\<close> is \<open>-1\<close>. When it
  comes before the tick or after it, the frame is counted, in bucket 0 or in bucket 1.
\<close>

theorem NextFrame_lost_in_tick:
  "tick 1000000000
     (\<lparr>counterFPS = FZero, ticks = 0, frames = [0, 0, 0], durations = [0, 0, 0],
       totalFrames = 0, totalDuration = 0\<rparr>, \<lparr>lastTime = 0, lastDuration = 0, idx = 0\<rparr>)
     = Inr (\<lparr>counterFPS = FQuot 0 1000000000, ticks = 1, frames = [0, 0, 0],
              durations = [1000000000, 0, 0], totalFrames = 0, totalDuration = 1000000000\<rparr>,
            \<lparr>lastTime = 1000000000, lastDuration = 1000000000, idx = 1\<rparr>)
   \<and> tick_overtaken 9 1000000000
     (\<lparr>counterFPS = FZero, ticks = 0, frames = [0, 0, 0], durations = [0, 0, 0],
       totalFrames = 0, totalDuration = 0\<rparr>, \<lparr>lastTime = 0, lastDuration = 0, idx = 0\<rparr>)
     = Inr (\<lparr>counterFPS = FQuot 0 1000000000, ticks = 1, frames = [0, 0, 0],
              durations = [1000000000, 0, 0], totalFrames = 0, totalDuration = 1000000000\<rparr>,
            \<lparr>lastTime = 1000000000, lastDuration = 1000000000, idx = 1\<rparr>)
   \<and> tick_overtaken 7 1000000000
     (\<lparr>counterFPS = FZero, ticks = 0, frames = [0, 0, 0], durations = [0, 0, 0],
       totalFrames = 0, totalDuration = 0\<rparr>, \<lparr>lastTime = 0, lastDuration = 0, idx = 0\<rparr>)
     = Inr (\<lparr>counterFPS = FQuot (- 1) 1000000000, ticks = 1, frames = [0, 0, 0],
              durations = [1000000000, 0, 0], totalFrames = - 1, totalDuration = 1000000000\<rparr>,
            \<lparr>lastTime = 1000000000, lastDuration = 1000000000, idx = 1\<rparr>)
   \<and> tick_overtaken 0 1000000000
     (\<lparr>counterFPS = FZero, ticks = 0, frames = [0, 0, 0], durations = [0, 0, 0],
       totalFrames = 0, totalDuration = 0\<rparr>, \<lparr>lastTime = 0, lastDuration = 0, idx = 0\<rparr>)
     = Inr (\<lparr>counterFPS = FQuot 1 1000000000, ticks = 1, frames = [1, 0, 0],
              durations = [1000000000, 0, 0], totalFrames = 1, totalDuration = 1000000000\<rparr>,
            \<lparr>lastTime = 1000000000, lastDuration = 1000000000, idx = 1\<rparr>)
   \<and> tick_overtaken 13 1000000000
     (\<lparr>counterFPS = FZero, ticks = 0, frames = [0, 0, 0], durations = [0, 0, 0],
       totalFrames = 0, totalDuration = 0\<rparr>, \<lparr>lastTime = 0, lastDuration = 0, idx = 0\<rparr>)
     = Inr (\<lparr>counterFPS = FQuot 0 1000000000, ticks = 1, frames = [0, 1, 0],
              durations = [1000000000, 0, 0], totalFrames = 0, totalDuration = 1000000000\<rparr>,
            \<lparr>lastTime = 1000000000, lastDuration = 1000000000, idx = 1\<rparr>)"
  by (simp add: tick_overtaken_def NextFrame_def go_rem_def index_def store_def
      wrap64_def tick_def tick_body_def time_Sub_def minDuration_def maxDuration_def)

end
